theory Spec2Isabelle
  imports Main "HOL-Library.Sublist" "HOL-Library.AList"
begin

section \<open>The media download pipeline of ai-media-studio-cli\<close>

text \<open>
  A shallow embedding of \<^verbatim>\<open>src/ai_media_studio_cli/download.py\<close> and of
  \<^verbatim>\<open>create_download_status_panel\<close> from \<^verbatim>\<open>ui_components.py\<close>.

  Conventions of the embedding.
  \<^item> A Python \<^verbatim>\<open>str\<close> is a \<open>string\<close>; a \<open>char\<close> stands for a code point below 256.
  \<^item> \<^verbatim>\<open>pathlib.Path\<close> is the POSIX flavour: a root (\<open>''''\<close>, \<open>''/''\<close> or \<open>''//''\<close>) and
    the list of components after it.
  \<^item> The file system maps paths to nodes. Paths are compared as pathlib values: \<open>..\<close> and
    symbolic links are not resolved.
  \<^item> Everything the code obtains from outside the repository (the storage client, the HTTP
    session, \<^verbatim>\<open>urllib.parse.urlparse\<close>) is a field of the record \<open>env\<close>. The storage and
    HTTP oracles receive the trace of all earlier calls, so that two calls with the same
    arguments may answer differently.
  \<^item> Every call to a collaborator is appended to the trace of the world.
  \<^item> Console output (\<^verbatim>\<open>console.print\<close>, progress bars) is not modelled.
  \<^item> The coroutines given to \<^verbatim>\<open>asyncio.gather\<close> are run one after the other in task order;
    \<^verbatim>\<open>gather\<close> returns its results in task order whatever the completion order.
\<close>

subsection \<open>Python strings\<close>

text \<open>\<^verbatim>\<open>s.startswith(p)\<close>\<close>

definition startswith :: "string \<Rightarrow> string \<Rightarrow> bool" where
  "startswith s p = prefix p s"

text \<open>\<^verbatim>\<open>s.replace(old, new)\<close>: all non-overlapping occurrences, from the left.\<close>

fun replace :: "string \<Rightarrow> string \<Rightarrow> string \<Rightarrow> string" where
  "replace old new [] = (if old = [] then new else [])"
| "replace old new (c # cs) =
     (if old = [] then new @ c # replace old new cs
      else if prefix old (c # cs) then new @ replace old new (drop (length old) (c # cs))
      else c # replace old new cs)"

text \<open>\<^verbatim>\<open>s.find(sub)\<close>, with \<open>None\<close> for Python's \<open>-1\<close>.\<close>

fun find_str :: "string \<Rightarrow> string \<Rightarrow> nat option" where
  "find_str sub [] = (if sub = [] then Some 0 else None)"
| "find_str sub (c # cs) =
     (if prefix sub (c # cs) then Some 0 else map_option Suc (find_str sub cs))"

text \<open>\<^verbatim>\<open>s.split(sep, 1)\<close> for a non-empty separator: one or two pieces.\<close>

definition split1 :: "string \<Rightarrow> string \<Rightarrow> string list" where
  "split1 sep s =
     (case find_str sep s of
        None \<Rightarrow> [s]
      | Some i \<Rightarrow> [take i s, drop (i + length sep) s])"

text \<open>\<^verbatim>\<open>s.split(c)\<close> for a separator of one character.\<close>

fun split_char :: "char \<Rightarrow> string \<Rightarrow> string list" where
  "split_char d [] = [[]]"
| "split_char d (c # cs) =
     (if c = d then [] # split_char d cs
      else (case split_char d cs of
              [] \<Rightarrow> [[c]]
            | w # ws \<Rightarrow> (c # w) # ws))"

text \<open>\<^verbatim>\<open>s.rfind(c)\<close> for one character, with \<open>None\<close> for \<open>-1\<close>.\<close>

definition rfind :: "string \<Rightarrow> char \<Rightarrow> nat option" where
  "rfind s c =
     (if c \<in> set s then Some (length s - 1 - length (takeWhile (\<lambda>x. x \<noteq> c) (rev s)))
      else None)"

text \<open>
  \<^verbatim>\<open>s.lower()\<close> on code points below 256: the upper-case letters are \<open>A\<close> to \<open>Z\<close> and
  \<open>0xC0\<close> to \<open>0xDE\<close> without \<open>0xD7\<close>; the lower-case letter is 32 above, which sets bit 5.
\<close>

definition isupper :: "char \<Rightarrow> bool" where
  "isupper c =
     (let n = (of_char c :: nat)
      in (65 \<le> n \<and> n \<le> 90) \<or> (192 \<le> n \<and> n \<le> 222 \<and> n \<noteq> 215))"

fun lower_char :: "char \<Rightarrow> char" where
  "lower_char (Char b0 b1 b2 b3 b4 b5 b6 b7) =
     (if isupper (Char b0 b1 b2 b3 b4 b5 b6 b7) then Char b0 b1 b2 b3 b4 True b6 b7
      else Char b0 b1 b2 b3 b4 b5 b6 b7)"

definition lower :: "string \<Rightarrow> string" where
  "lower s = map lower_char s"

text \<open>\<^verbatim>\<open>str(n)\<close> for the integers that the f-strings format.\<close>

definition digits :: string where
  "digits = ''0123456789''"

fun str_nat :: "nat \<Rightarrow> string" where
  "str_nat n =
     (if n < 10 then [digits ! n] else str_nat (n div 10) @ [digits ! (n mod 10)])"

declare str_nat.simps [simp del]

definition str_int :: "int \<Rightarrow> string" where
  "str_int i = (if i < 0 then CHR ''-'' # str_nat (nat (- i)) else str_nat (nat i))"

subsection \<open>pathlib paths (POSIX flavour)\<close>

datatype path = Path (root: string) (tail: "string list")

text \<open>
  \<^verbatim>\<open>Path(s)\<close>: the root is \<open>//\<close> for exactly two leading slashes and \<open>/\<close> for any other
  number of them; empty components and \<open>.\<close> are dropped.
\<close>

definition Path_of :: "string \<Rightarrow> path" where
  "Path_of s =
     (let stripped = dropWhile (\<lambda>c. c = CHR ''/'') s;
          n = length s - length stripped
      in Path (if n = 0 then [] else if n = 2 then ''//'' else ''/'')
              (filter (\<lambda>x. x \<noteq> [] \<and> x \<noteq> ''.'') (split_char CHR ''/'' stripped)))"

text \<open>\<^verbatim>\<open>p / s\<close>: an absolute right operand replaces the left one.\<close>

definition path_join :: "path \<Rightarrow> string \<Rightarrow> path" where
  "path_join p s =
     (let q = Path_of s
      in if root q \<noteq> [] then q else Path (root p) (tail p @ tail q))"

text \<open>\<^verbatim>\<open>p.name\<close>, \<^verbatim>\<open>p.suffix\<close> and \<^verbatim>\<open>p.parent\<close>.\<close>

definition name :: "path \<Rightarrow> string" where
  "name p = (if tail p = [] then [] else last (tail p))"

definition path_suffix :: "path \<Rightarrow> string" where
  "path_suffix p =
     (let n = name p
      in case rfind n CHR ''.'' of
           None \<Rightarrow> []
         | Some i \<Rightarrow> if 0 < i \<and> i + 1 < length n then drop i n else [])"

definition parent :: "path \<Rightarrow> path" where
  "parent p = Path (root p) (butlast (tail p))"

subsection \<open>The media classifier\<close>

text \<open>\<^verbatim>\<open>MEDIA_TYPES\<close>, a dict in insertion order.\<close>

definition MEDIA_TYPES :: "(string \<times> string set) list" where
  "MEDIA_TYPES =
     [(''videos'', {''.mp4'', ''.avi'', ''.mov'', ''.mkv'', ''.wmv'', ''.flv'', ''.webm'',
                    ''.m4v'', ''.3gp''}),
      (''images'', {''.jpg'', ''.jpeg'', ''.png'', ''.gif'', ''.bmp'', ''.tiff'', ''.svg'',
                    ''.webp'', ''.ico''}),
      (''audios'', {''.mp3'', ''.wav'', ''.flac'', ''.aac'', ''.ogg'', ''.wma'', ''.m4a'',
                    ''.opus''})]"

text \<open>The loop of \<^verbatim>\<open>get_media_type\<close> over \<^verbatim>\<open>MEDIA_TYPES.items()\<close>.\<close>

fun get_media_type_loop :: "(string \<times> string set) list \<Rightarrow> string \<Rightarrow> string" where
  "get_media_type_loop [] file_extension = ''unknown''"
| "get_media_type_loop ((media_type, extensions) # items) file_extension =
     (if file_extension \<in> extensions then media_type
      else get_media_type_loop items file_extension)"

definition get_media_type :: "string \<Rightarrow> string" where
  "get_media_type file_extension = get_media_type_loop MEDIA_TYPES (lower file_extension)"

subsection \<open>The file system\<close>

datatype node = Dir (writable: bool) | File

type_synonym filesystem = "path \<rightharpoonup> node"

datatype error =
    FileExistsError | FileNotFoundError | NotADirectoryError | IsADirectoryError
  | PermissionError | ValueError | KeyError

text \<open>
  \<^verbatim>\<open>p.mkdir(exist_ok=True)\<close>: an existing directory is left alone, any other existing node
  raises; without \<^verbatim>\<open>parents=True\<close> the parent must be a directory already.
\<close>

definition mkdir_exist_ok :: "path \<Rightarrow> filesystem \<Rightarrow> error + filesystem" where
  "mkdir_exist_ok p fs =
     (case fs p of
        Some (Dir w) \<Rightarrow> Inr fs
      | Some File \<Rightarrow> Inl FileExistsError
      | None \<Rightarrow>
          (case fs (parent p) of
             None \<Rightarrow> Inl FileNotFoundError
           | Some File \<Rightarrow> Inl NotADirectoryError
           | Some (Dir w) \<Rightarrow> if w then Inr (fs(p \<mapsto> Dir True)) else Inl PermissionError))"

text \<open>\<^verbatim>\<open>open(p, 'wb')\<close>: creates the file or truncates an existing one.\<close>

definition open_wb :: "path \<Rightarrow> filesystem \<Rightarrow> error + filesystem" where
  "open_wb p fs =
     (case fs p of
        Some (Dir w) \<Rightarrow> Inl IsADirectoryError
      | Some File \<Rightarrow> Inr fs
      | None \<Rightarrow>
          (case fs (parent p) of
             None \<Rightarrow> Inl FileNotFoundError
           | Some File \<Rightarrow> Inl NotADirectoryError
           | Some (Dir w) \<Rightarrow> if w then Inr (fs(p \<mapsto> File)) else Inl PermissionError))"

subsection \<open>The folder organizer\<close>

type_synonym layout = "(string \<times> path) list"

text \<open>
  The loop of \<^verbatim>\<open>create_media_folders\<close> over \<^verbatim>\<open>MEDIA_TYPES.keys()\<close>. A \<^verbatim>\<open>mkdir\<close> that raises
  leaves the directories made before it.
\<close>

fun create_media_folders_loop ::
  "path \<Rightarrow> string list \<Rightarrow> layout \<Rightarrow> filesystem \<Rightarrow> (error + layout) \<times> filesystem" where
  "create_media_folders_loop base_dir [] folders fs = (Inr folders, fs)"
| "create_media_folders_loop base_dir (media_type # keys) folders fs =
     (let folder_path = path_join base_dir media_type
      in case mkdir_exist_ok folder_path fs of
           Inl e \<Rightarrow> (Inl e, fs)
         | Inr fs' \<Rightarrow>
             create_media_folders_loop base_dir keys
               (AList.update media_type folder_path folders) fs')"

definition create_media_folders :: "path \<Rightarrow> filesystem \<Rightarrow> (error + layout) \<times> filesystem" where
  "create_media_folders base_dir fs =
     (case create_media_folders_loop base_dir (map fst MEDIA_TYPES) [] fs of
        (Inl e, fs1) \<Rightarrow> (Inl e, fs1)
      | (Inr folders, fs1) \<Rightarrow>
          (let unknown_folder = path_join base_dir ''unknown''
           in case mkdir_exist_ok unknown_folder fs1 of
                Inl e \<Rightarrow> (Inl e, fs1)
              | Inr fs2 \<Rightarrow> (Inr (AList.update ''unknown'' unknown_folder folders), fs2)))"

subsection \<open>The environment and the world\<close>

datatype event =
    SignedUrl string string int
  | Get string
  | Delete string string

datatype response = Refused | Broken | Complete

text \<open>
  \<^item> \<open>GCS_AVAILABLE\<close>: whether \<^verbatim>\<open>google.cloud.storage\<close> could be imported.
  \<^item> \<open>urlparse_path\<close>: \<^verbatim>\<open>urlparse(uri).path\<close>, which raises \<^verbatim>\<open>ValueError\<close> on some inputs.
  \<^item> \<open>generate_signed_url\<close>: the client calls of \<^verbatim>\<open>convert_gcs_uri_to_signed_url\<close> for a
    bucket, a blob path and a validity in hours; \<open>None\<close> when any of them raises.
  \<^item> \<open>session_get\<close>: what a request gives. \<open>Refused\<close>: the request, the status check or
    the headers raise before the target file is opened. \<open>Broken\<close>: the body stream or a
    write raises after the file was opened. \<open>Complete\<close>: every chunk is written.
  \<^item> \<open>blob_delete\<close>: the client calls of \<^verbatim>\<open>delete_gcs_file\<close>; \<open>False\<close> when any of them raises.

  An event records that the code has turned to the collaborator with these arguments; what
  the collaborator answers, or that it raises, is the value of the oracle.
\<close>

record env =
  GCS_AVAILABLE :: bool
  urlparse_path :: "string \<Rightarrow> error + string"
  generate_signed_url :: "event list \<Rightarrow> string \<Rightarrow> string \<Rightarrow> int \<Rightarrow> string option"
  session_get :: "event list \<Rightarrow> string \<Rightarrow> response"
  blob_delete :: "event list \<Rightarrow> string \<Rightarrow> string \<Rightarrow> bool"

record world =
  files :: filesystem
  trace :: "event list"

definition emit :: "event \<Rightarrow> world \<Rightarrow> world" where
  "emit ev w = w\<lparr>trace := trace w @ [ev]\<rparr>"

subsection \<open>Remote storage: signed URLs and deletion\<close>

text \<open>
  The two lines that both storage functions use to take a URI apart:
  \<^verbatim>\<open>path_parts = gcs_uri.replace("gs://", "").split("/", 1)\<close>.
\<close>

definition gcs_path_parts :: "string \<Rightarrow> string list" where
  "gcs_path_parts gcs_uri = split1 ''/'' (replace ''gs://'' [] gcs_uri)"

definition delete_gcs_file :: "env \<Rightarrow> string \<Rightarrow> world \<Rightarrow> bool \<times> world" where
  "delete_gcs_file E gcs_uri w =
     (if \<not> GCS_AVAILABLE E then (False, w)
      else if \<not> startswith gcs_uri ''gs://'' then (False, w)
      else
        (let path_parts = gcs_path_parts gcs_uri
         in if length path_parts \<noteq> 2 then (False, w)
            else
              (let bucket_name = path_parts ! 0; blob_path = path_parts ! 1
               in (blob_delete E (trace w) bucket_name blob_path,
                   emit (Delete bucket_name blob_path) w))))"

definition convert_gcs_uri_to_signed_url ::
  "env \<Rightarrow> string \<Rightarrow> int \<Rightarrow> world \<Rightarrow> string option \<times> world" where
  "convert_gcs_uri_to_signed_url E gcs_uri expiration_hours w =
     (if \<not> GCS_AVAILABLE E then (None, w)
      else if \<not> startswith gcs_uri ''gs://'' then (Some gcs_uri, w)
      else
        (let path_parts = gcs_path_parts gcs_uri
         in if length path_parts \<noteq> 2 then (None, w)
            else
              (let bucket_name = path_parts ! 0; blob_path = path_parts ! 1
               in (generate_signed_url E (trace w) bucket_name blob_path expiration_hours,
                   emit (SignedUrl bucket_name blob_path expiration_hours) w))))"

subsection \<open>Fetching one file\<close>

text \<open>
  \<^verbatim>\<open>download_media_file\<close>: every exception is caught and turned into \<^verbatim>\<open>False\<close>. The file is
  opened only after the response has passed the status check, and it stays on disk when
  the stream breaks.
\<close>

definition download_media_file ::
  "env \<Rightarrow> string \<Rightarrow> path \<Rightarrow> string \<Rightarrow> world \<Rightarrow> bool \<times> world" where
  "download_media_file E url filepath description w =
     (let w1 = emit (Get url) w
      in case session_get E (trace w) url of
           Refused \<Rightarrow> (False, w1)
         | Broken \<Rightarrow>
             (case open_wb filepath (files w1) of
                Inl e \<Rightarrow> (False, w1)
              | Inr fs \<Rightarrow> (False, w1\<lparr>files := fs\<rparr>))
         | Complete \<Rightarrow>
             (case open_wb filepath (files w1) of
                Inl e \<Rightarrow> (False, w1)
              | Inr fs \<Rightarrow> (True, w1\<lparr>files := fs\<rparr>)))"

subsection \<open>The download orchestrator\<close>

text \<open>Lines 218 to 240 of \<^verbatim>\<open>download_media_async\<close>: the output directory and its folders.\<close>

definition download_dir_of :: "string option \<Rightarrow> path" where
  "download_dir_of output_dir =
     (case output_dir of
        None \<Rightarrow> Path_of ''downloaded_media''
      | Some d \<Rightarrow> if d \<noteq> [] then Path_of d else Path_of ''downloaded_media'')"

definition prepare_destination ::
  "string option \<Rightarrow> bool \<Rightarrow> filesystem \<Rightarrow> (error + path \<times> layout) \<times> filesystem" where
  "prepare_destination output_dir organize_by_type fs =
     (let download_dir = download_dir_of output_dir
      in case mkdir_exist_ok download_dir fs of
           Inl e \<Rightarrow> (Inl e, fs)
         | Inr fs1 \<Rightarrow>
             if organize_by_type then
               (case create_media_folders download_dir fs1 of
                  (Inl e, fs2) \<Rightarrow> (Inl e, fs2)
                | (Inr media_folders, fs2) \<Rightarrow> (Inr (download_dir, media_folders), fs2))
             else (Inr (download_dir, []), fs1))"

text \<open>Lines 248 to 261: the file name of the reference at position \<open>i\<close>, counted from 1.\<close>

definition derive_filename :: "env \<Rightarrow> nat \<Rightarrow> string \<Rightarrow> error + string" where
  "derive_filename E i uri =
     (if startswith uri ''gs://'' then
        (let path_parts = gcs_path_parts uri
         in if length path_parts > 1 then Inr (name (Path_of (path_parts ! 1)))
            else Inr (''media_'' @ str_nat i))
      else
        (case urlparse_path E uri of
           Inl e \<Rightarrow> Inl e
         | Inr parsed_path \<Rightarrow>
             (let filename = name (Path_of parsed_path)
              in if filename = [] then Inr (''media_'' @ str_nat i) else Inr filename)))"

text \<open>
  Lines 263 to 270: the target path. \<^verbatim>\<open>media_folders['unknown']\<close> is evaluated before
  \<^verbatim>\<open>get\<close> is called and raises \<^verbatim>\<open>KeyError\<close> when the key is missing.
\<close>

definition target_path :: "bool \<Rightarrow> layout \<Rightarrow> path \<Rightarrow> string \<Rightarrow> error + path" where
  "target_path organize_by_type media_folders download_dir filename =
     (let file_extension = lower (path_suffix (Path_of filename))
      in if organize_by_type then
           (let media_type = get_media_type file_extension
            in case map_of media_folders ''unknown'' of
                 None \<Rightarrow> Inl KeyError
               | Some fallback \<Rightarrow>
                   (let target_folder =
                          (case map_of media_folders media_type of
                             None \<Rightarrow> fallback
                           | Some folder \<Rightarrow> folder)
                    in Inr (path_join target_folder filename)))
         else Inr (path_join download_dir filename))"

text \<open>A task: the URL to fetch, the target path and the progress label.\<close>

type_synonym task = "string \<times> path \<times> string"

text \<open>
  The body of the loop, lines 248 to 287. \<open>Inr None\<close> is the \<^verbatim>\<open>continue\<close> of line 283;
  \<open>Inr (Some (t, m))\<close> is what is appended to \<^verbatim>\<open>download_tasks\<close> and \<^verbatim>\<open>file_mapping\<close>.
\<close>

definition prepare_one ::
  "env \<Rightarrow> bool \<Rightarrow> layout \<Rightarrow> path \<Rightarrow> nat \<Rightarrow> nat \<Rightarrow> string \<Rightarrow> world
     \<Rightarrow> (error + (task \<times> (string \<times> path)) option) \<times> world" where
  "prepare_one E organize_by_type media_folders download_dir n_uris i uri w =
     (case derive_filename E i uri of
        Inl e \<Rightarrow> (Inl e, w)
      | Inr filename \<Rightarrow>
          (case target_path organize_by_type media_folders download_dir filename of
             Inl e \<Rightarrow> (Inl e, w)
           | Inr filepath \<Rightarrow>
               (let description =
                      ''Media '' @ str_nat i @ ''/'' @ str_nat n_uris @ '': '' @ filename
                in if startswith uri ''gs://'' then
                     (case convert_gcs_uri_to_signed_url E uri 1 w of
                        (None, w1) \<Rightarrow> (Inr None, w1)
                      | (Some signed_url, w1) \<Rightarrow>
                          if signed_url \<noteq> [] then
                            (Inr (Some ((signed_url, filepath, description), (uri, filepath))),
                             w1)
                          else (Inr None, w1))
                   else (Inr (Some ((uri, filepath, description), (uri, filepath))), w))))"

text \<open>
  The loop over \<^verbatim>\<open>enumerate(media_uris, 1)\<close>. An exception leaves the loop and the function;
  the two lists are built in loop order.
\<close>

fun prepare_downloads ::
  "env \<Rightarrow> bool \<Rightarrow> layout \<Rightarrow> path \<Rightarrow> nat \<Rightarrow> nat \<Rightarrow> string list \<Rightarrow> world
     \<Rightarrow> (error + task list \<times> (string \<times> path) list) \<times> world" where
  "prepare_downloads E organize_by_type media_folders download_dir n_uris i [] w =
     (Inr ([], []), w)"
| "prepare_downloads E organize_by_type media_folders download_dir n_uris i (uri # uris) w =
     (case prepare_one E organize_by_type media_folders download_dir n_uris i uri w of
        (Inl e, w1) \<Rightarrow> (Inl e, w1)
      | (Inr item, w1) \<Rightarrow>
          (case prepare_downloads E organize_by_type media_folders download_dir n_uris
                  (Suc i) uris w1 of
             (Inl e, w2) \<Rightarrow> (Inl e, w2)
           | (Inr (download_tasks, file_mapping), w2) \<Rightarrow>
               (case item of
                  None \<Rightarrow> (Inr (download_tasks, file_mapping), w2)
                | Some (t, m) \<Rightarrow> (Inr (t # download_tasks, m # file_mapping), w2))))"

text \<open>\<^verbatim>\<open>asyncio.gather(*download_tasks)\<close>: one result for each task, in task order.\<close>

fun gather :: "env \<Rightarrow> task list \<Rightarrow> world \<Rightarrow> bool list \<times> world" where
  "gather E [] w = ([], w)"
| "gather E ((url, filepath, description) # tasks) w =
     (case download_media_file E url filepath description w of
        (success, w1) \<Rightarrow>
          (case gather E tasks w1 of
             (results, w2) \<Rightarrow> (success # results, w2)))"

text \<open>The cleanup loop, lines 300 to 304, with its counter.\<close>

fun cleanup_loop :: "env \<Rightarrow> (string \<times> path) list \<Rightarrow> nat \<Rightarrow> world \<Rightarrow> nat \<times> world" where
  "cleanup_loop E [] cleanup_count w = (cleanup_count, w)"
| "cleanup_loop E ((original_uri, local_path) # downloads) cleanup_count w =
     (if startswith original_uri ''gs://'' then
        (case delete_gcs_file E original_uri w of
           (deleted, w1) \<Rightarrow>
             cleanup_loop E downloads (if deleted then Suc cleanup_count else cleanup_count) w1)
      else cleanup_loop E downloads cleanup_count w)"

text \<open>The local variables of \<^verbatim>\<open>download_media_async\<close> when it returns.\<close>

record locals =
  download_tasks :: "task list"
  file_mapping :: "(string \<times> path) list"
  results :: "bool list"
  successful_downloads :: "(string \<times> path) list"

definition download_media_body ::
  "env \<Rightarrow> string list \<Rightarrow> string option \<Rightarrow> bool \<Rightarrow> bool \<Rightarrow> world
     \<Rightarrow> (error + locals) \<times> world" where
  "download_media_body E media_uris output_dir cleanup_gcs organize_by_type w =
     (case prepare_destination output_dir organize_by_type (files w) of
        (Inl e, fs) \<Rightarrow> (Inl e, w\<lparr>files := fs\<rparr>)
      | (Inr (download_dir, media_folders), fs) \<Rightarrow>
          (case prepare_downloads E organize_by_type media_folders download_dir
                  (length media_uris) 1 media_uris (w\<lparr>files := fs\<rparr>) of
             (Inl e, w1) \<Rightarrow> (Inl e, w1)
           | (Inr (tasks, mapping), w1) \<Rightarrow>
               (case gather E tasks w1 of
                  (res, w2) \<Rightarrow>
                    (let successful = map fst (filter snd (zip mapping res));
                         w3 = (if cleanup_gcs \<and> successful \<noteq> []
                               then snd (cleanup_loop E successful 0 w2) else w2)
                     in (Inr \<lparr>download_tasks = tasks, file_mapping = mapping,
                               results = res, successful_downloads = successful\<rparr>,
                         w3)))))"

definition download_media_async ::
  "env \<Rightarrow> string list \<Rightarrow> string option \<Rightarrow> bool \<Rightarrow> bool \<Rightarrow> world
     \<Rightarrow> (error + (string \<times> path) list) \<times> world" where
  "download_media_async E media_uris output_dir cleanup_gcs organize_by_type w =
     (case download_media_body E media_uris output_dir cleanup_gcs organize_by_type w of
        (Inl e, w') \<Rightarrow> (Inl e, w')
      | (Inr l, w') \<Rightarrow> (Inr (successful_downloads l), w'))"

subsection \<open>The download status panel\<close>

text \<open>
  \<^verbatim>\<open>create_download_status_panel\<close>. The panel's content is assembled from the icon, the
  status text and the folder; the model keeps these parts and the style.
\<close>

datatype icon = CheckMark | Warning | CrossMark

record panel =
  status_icon :: icon
  status_text :: string
  style :: string
  location :: string

definition create_download_status_panel :: "int \<Rightarrow> int \<Rightarrow> string \<Rightarrow> panel" where
  "create_download_status_panel success_count total_count download_folder =
     (if success_count = total_count then
        \<lparr>status_icon = CheckMark, status_text = ''All downloads successful'',
         style = ''green'', location = download_folder\<rparr>
      else if success_count > 0 then
        \<lparr>status_icon = Warning,
         status_text = ''Partial success: '' @ str_int success_count @ ''/''
                         @ str_int total_count @ '' downloaded'',
         style = ''yellow'', location = download_folder\<rparr>
      else
        \<lparr>status_icon = CrossMark, status_text = ''All downloads failed'',
         style = ''red'', location = download_folder\<rparr>)"

text \<open>
  The status panel that \<^verbatim>\<open>print_download_summary\<close> prints first (lines 353 to 356); the
  listing of file names that follows it is console output.
\<close>

definition print_download_summary ::
  "(string \<times> path) list \<Rightarrow> int \<Rightarrow> string \<Rightarrow> bool \<Rightarrow> panel" where
  "print_download_summary downloads total_media download_folder organized =
     (let success_count = int (length downloads)
      in create_download_status_panel success_count total_media download_folder)"

subsection \<open>Reading the trace\<close>

text \<open>The calls made between two worlds, and the objects and URLs they name.\<close>

definition new_events :: "world \<Rightarrow> world \<Rightarrow> event list" where
  "new_events w w' = drop (length (trace w)) (trace w')"

fun deleted_objects :: "event list \<Rightarrow> (string \<times> string) list" where
  "deleted_objects [] = []"
| "deleted_objects (Delete bucket_name blob_path # evs) =
     (bucket_name, blob_path) # deleted_objects evs"
| "deleted_objects (ev # evs) = deleted_objects evs"

fun fetched_urls :: "event list \<Rightarrow> string list" where
  "fetched_urls [] = []"
| "fetched_urls (Get url # evs) = url # fetched_urls evs"
| "fetched_urls (ev # evs) = fetched_urls evs"

text \<open>The bucket and the blob path that the storage functions take from a URI.\<close>

definition gcs_object :: "string \<Rightarrow> string \<times> string" where
  "gcs_object gcs_uri = (gcs_path_parts gcs_uri ! 0, gcs_path_parts gcs_uri ! 1)"

text \<open>The path with the components \<open>cs\<close> below the directory \<open>d\<close>.\<close>

definition below :: "path \<Rightarrow> string list \<Rightarrow> path" where
  "below d cs = Path (root d) (tail d @ cs)"

text \<open>The layout that \<open>create_media_folders\<close> returns for the directory \<open>d\<close>.\<close>

definition four_folders :: "path \<Rightarrow> layout" where
  "four_folders d =
     [(''videos'', below d [''videos'']), (''images'', below d [''images'']),
      (''audios'', below d [''audios'']), (''unknown'', below d [''unknown''])]"

subsection \<open>An example environment\<close>

text \<open>
  A reading of \<^verbatim>\<open>urlparse(url).path\<close> after CPython 3.11 for the examples: the scheme, the
  network location, the fragment, the query and the parameters of the last segment are cut
  off, and an unbalanced bracket in the network location raises. The stripping of control
  characters and the checks of bracketed hosts and of NFKC normalisation are left out.
\<close>

definition scheme_chars :: string where
  "scheme_chars = ''abcdefghijklmnopqrstuvwxyzABCDEFGHIJKLMNOPQRSTUVWXYZ0123456789+-.''"

definition ascii_letters :: string where
  "ascii_letters = ''abcdefghijklmnopqrstuvwxyzABCDEFGHIJKLMNOPQRSTUVWXYZ''"

definition uses_params :: "string list" where
  "uses_params =
     ['''', ''ftp'', ''hdl'', ''prospero'', ''http'', ''imap'', ''https'', ''shttp'', ''rtsp'',
      ''rtsps'', ''rtspu'', ''sip'', ''sips'', ''mms'', ''sftp'', ''tel'']"

definition split_scheme :: "string \<Rightarrow> string \<times> string" where
  "split_scheme url =
     (case find_str '':'' url of
        None \<Rightarrow> ([], url)
      | Some i \<Rightarrow>
          if 0 < i \<and> hd url \<in> set ascii_letters
             \<and> list_all (\<lambda>c. c \<in> set scheme_chars) (take i url)
          then (lower (take i url), drop (Suc i) url)
          else ([], url))"

definition split_netloc :: "string \<Rightarrow> string \<times> string" where
  "split_netloc url =
     (if take 2 url = ''//'' then
        (takeWhile (\<lambda>c. c \<notin> set ''/?#'') (drop 2 url),
         dropWhile (\<lambda>c. c \<notin> set ''/?#'') (drop 2 url))
      else ([], url))"

definition split_params :: "string \<Rightarrow> string" where
  "split_params url =
     (let k = (case rfind url CHR ''/'' of None \<Rightarrow> 0 | Some j \<Rightarrow> j)
      in take k url @ takeWhile (\<lambda>c. c \<noteq> CHR '';'') (drop k url))"

definition urlparse_path_model :: "string \<Rightarrow> error + string" where
  "urlparse_path_model url0 =
     (case split_scheme url0 of
        (scheme, url1) \<Rightarrow>
          (case split_netloc url1 of
             (netloc, url2) \<Rightarrow>
               if (CHR ''['' \<in> set netloc) \<noteq> (CHR '']'' \<in> set netloc) then Inl ValueError
               else
                 (let url3 = hd (split1 ''#'' url2);
                      url4 = hd (split1 ''?'' url3)
                  in if scheme \<in> set uses_params \<and> CHR '';'' \<in> set url4
                     then Inr (split_params url4) else Inr url4)))"

text \<open>
  A storage service that signs every object outside the bucket \<open>locked\<close>, a web server
  that refuses one URL, and a file system in which only the working directory exists.
\<close>

definition example_env :: env where
  "example_env =
     \<lparr>GCS_AVAILABLE = True,
      urlparse_path = urlparse_path_model,
      generate_signed_url =
        (\<lambda>h bucket_name blob_path hours.
           if bucket_name = ''locked'' then None
           else Some (''https://storage.example/'' @ bucket_name @ ''/'' @ blob_path)),
      session_get =
        (\<lambda>h url. if url = ''https://example.com/b/two.png'' then Refused else Complete),
      blob_delete = (\<lambda>h bucket_name blob_path. True)\<rparr>"

definition example_world :: world where
  "example_world = \<lparr>files = [Path [] [] \<mapsto> Dir True], trace = []\<rparr>"

text \<open>
  Two batches. In the first every reference reaches the fetch phase and the second fetch
  is refused; \<open>example_locals\<close> are the local variables of the run on it. In the second the
  exchange for the second reference fails.
\<close>

definition example_batch :: "string list" where
  "example_batch =
     [''https://example.com/media/clip.mp4'', ''https://example.com/b/two.png'',
      ''gs://bk/x/song.MP3'']"

definition example_locals :: locals where
  "example_locals =
     \<lparr>download_tasks =
        [(''https://example.com/media/clip.mp4'', Path [] [''out'', ''videos'', ''clip.mp4''],
          ''Media 1/3: clip.mp4''),
         (''https://example.com/b/two.png'', Path [] [''out'', ''images'', ''two.png''],
          ''Media 2/3: two.png''),
         (''https://storage.example/bk/x/song.MP3'',
          Path [] [''out'', ''audios'', ''song.MP3''], ''Media 3/3: song.MP3'')],
      file_mapping =
        [(''https://example.com/media/clip.mp4'', Path [] [''out'', ''videos'', ''clip.mp4'']),
         (''https://example.com/b/two.png'', Path [] [''out'', ''images'', ''two.png'']),
         (''gs://bk/x/song.MP3'', Path [] [''out'', ''audios'', ''song.MP3''])],
      results = [True, False, True],
      successful_downloads =
        [(''https://example.com/media/clip.mp4'', Path [] [''out'', ''videos'', ''clip.mp4'']),
         (''gs://bk/x/song.MP3'', Path [] [''out'', ''audios'', ''song.MP3''])]\<rparr>"

definition example_mixed :: "string list" where
  "example_mixed =
     [''https://example.com/media/clip.mp4'', ''gs://locked/x/v.mp4'', ''gs://bk/x/song.MP3'']"

section \<open>Properties\<close>

subsection \<open>The media classifier\<close>

text \<open>
  Claim C3. \<open>get_media_type\<close> is a total function of the extension: an extension whose
  lower-case form is in the table of videos, images or audios gets that category, and
  every other extension gets \<open>unknown\<close>. The four cases cover every string. The categories
  are the strings \<open>videos\<close>, \<open>images\<close>, \<open>audios\<close> and \<open>unknown\<close> of the code.
\<close>

theorem get_media_type_table:
  "(lower ext \<in> {''.mp4'', ''.avi'', ''.mov'', ''.mkv'', ''.wmv'', ''.flv'', ''.webm'',
                   ''.m4v'', ''.3gp''} \<longrightarrow> get_media_type ext = ''videos'') \<and>
   (lower ext \<in> {''.jpg'', ''.jpeg'', ''.png'', ''.gif'', ''.bmp'', ''.tiff'', ''.svg'',
                   ''.webp'', ''.ico''} \<longrightarrow> get_media_type ext = ''images'') \<and>
   (lower ext \<in> {''.mp3'', ''.wav'', ''.flac'', ''.aac'', ''.ogg'', ''.wma'', ''.m4a'',
                   ''.opus''} \<longrightarrow> get_media_type ext = ''audios'') \<and>
   (lower ext \<notin> {''.mp4'', ''.avi'', ''.mov'', ''.mkv'', ''.wmv'', ''.flv'', ''.webm'',
                   ''.m4v'', ''.3gp'', ''.jpg'', ''.jpeg'', ''.png'', ''.gif'', ''.bmp'',
                   ''.tiff'', ''.svg'', ''.webp'', ''.ico'', ''.mp3'', ''.wav'', ''.flac'',
                   ''.aac'', ''.ogg'', ''.wma'', ''.m4a'', ''.opus''}
      \<longrightarrow> get_media_type ext = ''unknown'')"
  unfolding get_media_type_def MEDIA_TYPES_def
  by auto

theorem get_media_type_table_witness:
  "get_media_type ''.MP4'' = ''videos'' \<and> get_media_type ''.Jpeg'' = ''images'' \<and>
   get_media_type ''.ogg'' = ''audios'' \<and> get_media_type ''.txt'' = ''unknown'' \<and>
   get_media_type [] = ''unknown''"
  using get_media_type_table [of "''.MP4''"] get_media_type_table [of "''.Jpeg''"]
    get_media_type_table [of "''.ogg''"] get_media_type_table [of "''.txt''"]
    get_media_type_table [of "[]"]
  by (simp add: lower_def isupper_def)

subsection \<open>The folder organizer\<close>

lemma mkdir_exist_ok_Dir:
  "fs p = Some (Dir b) \<Longrightarrow> mkdir_exist_ok p fs = Inr fs"
  by (simp add: mkdir_exist_ok_def)

lemma mkdir_exist_ok_result:
  assumes "mkdir_exist_ok p fs = Inr fs'"
  shows "(\<exists>b. fs' p = Some (Dir b)) \<and>
         (\<forall>q b. fs q = Some (Dir b) \<longrightarrow> fs' q = Some (Dir b))"
  using assms
  by (auto simp: mkdir_exist_ok_def split: option.splits node.splits if_splits)

lemma create_media_folders_loop_result:
  assumes "create_media_folders_loop base keys folders fs = (Inr folders', fs')"
  shows "(\<forall>k \<in> set keys. \<exists>b. fs' (path_join base k) = Some (Dir b)) \<and>
         (\<forall>q b. fs q = Some (Dir b) \<longrightarrow> fs' q = Some (Dir b)) \<and>
         folders' = fold (\<lambda>k. AList.update k (path_join base k)) keys folders"
  using assms
proof (induction keys arbitrary: folders fs)
  case Nil
  then show ?case by simp
next
  case (Cons k keys)
  from Cons.prems obtain fs1 where m: "mkdir_exist_ok (path_join base k) fs = Inr fs1"
    and r: "create_media_folders_loop base keys
              (AList.update k (path_join base k) folders) fs1 = (Inr folders', fs')"
    by (auto simp: Let_def split: sum.splits)
  from mkdir_exist_ok_result [OF m] Cons.IH [OF r]
  show ?case by auto
qed

lemma create_media_folders_loop_again:
  assumes "\<forall>k \<in> set keys. \<exists>b. fs (path_join base k) = Some (Dir b)"
  shows "create_media_folders_loop base keys folders fs =
           (Inr (fold (\<lambda>k. AList.update k (path_join base k)) keys folders), fs)"
  using assms
  by (induction keys arbitrary: folders) (auto simp: Let_def mkdir_exist_ok_Dir)

text \<open>
  Claim C7. \<open>create_media_folders\<close> is idempotent: after a call that returned a layout, a
  second call on the same base directory raises nothing, returns the same layout and
  leaves the file system as it is.
\<close>

theorem create_media_folders_idempotent:
  assumes "create_media_folders base_dir fs = (Inr folders, fs')"
  shows "create_media_folders base_dir fs' = (Inr folders, fs')"
proof -
  let ?keys = "map fst MEDIA_TYPES"
  from assms obtain fl fs1 where
    l: "create_media_folders_loop base_dir ?keys [] fs = (Inr fl, fs1)"
    and m: "mkdir_exist_ok (path_join base_dir ''unknown'') fs1 = Inr fs'"
    and f: "folders = AList.update ''unknown'' (path_join base_dir ''unknown'') fl"
    by (auto simp: create_media_folders_def Let_def split: sum.splits prod.splits)
  note L = create_media_folders_loop_result [OF l]
  note M = mkdir_exist_ok_result [OF m]
  have dirs: "\<forall>k \<in> set ?keys. \<exists>b. fs' (path_join base_dir k) = Some (Dir b)"
    using L M by blast
  have again: "create_media_folders_loop base_dir ?keys [] fs' = (Inr fl, fs')"
    using create_media_folders_loop_again [OF dirs, of "[]"] L by simp
  from M obtain b where "fs' (path_join base_dir ''unknown'') = Some (Dir b)" by blast
  then have "mkdir_exist_ok (path_join base_dir ''unknown'') fs' = Inr fs'"
    by (rule mkdir_exist_ok_Dir)
  with again f show ?thesis
    by (simp add: create_media_folders_def Let_def)
qed

lemma path_join_out:
  "path_join (Path [] [''out'']) ''videos'' = Path [] [''out'', ''videos'']"
  "path_join (Path [] [''out'']) ''images'' = Path [] [''out'', ''images'']"
  "path_join (Path [] [''out'']) ''audios'' = Path [] [''out'', ''audios'']"
  "path_join (Path [] [''out'']) ''unknown'' = Path [] [''out'', ''unknown'']"
  by (simp_all add: path_join_def Path_of_def)

theorem create_media_folders_idempotent_witness:
  "create_media_folders (Path [] [''out''])
     [Path [] [''out''] \<mapsto> Dir True,
      Path [] [''out'', ''videos''] \<mapsto> Dir True,
      Path [] [''out'', ''images''] \<mapsto> Dir True,
      Path [] [''out'', ''audios''] \<mapsto> Dir True,
      Path [] [''out'', ''unknown''] \<mapsto> Dir True]
   = (Inr [(''videos'', Path [] [''out'', ''videos'']),
           (''images'', Path [] [''out'', ''images'']),
           (''audios'', Path [] [''out'', ''audios'']),
           (''unknown'', Path [] [''out'', ''unknown''])],
      [Path [] [''out''] \<mapsto> Dir True,
       Path [] [''out'', ''videos''] \<mapsto> Dir True,
       Path [] [''out'', ''images''] \<mapsto> Dir True,
       Path [] [''out'', ''audios''] \<mapsto> Dir True,
       Path [] [''out'', ''unknown''] \<mapsto> Dir True])"
proof -
  have first:
    "create_media_folders (Path [] [''out'']) [Path [] [''out''] \<mapsto> Dir True]
     = (Inr [(''videos'', Path [] [''out'', ''videos'']),
             (''images'', Path [] [''out'', ''images'']),
             (''audios'', Path [] [''out'', ''audios'']),
             (''unknown'', Path [] [''out'', ''unknown''])],
        [Path [] [''out''] \<mapsto> Dir True,
         Path [] [''out'', ''videos''] \<mapsto> Dir True,
         Path [] [''out'', ''images''] \<mapsto> Dir True,
         Path [] [''out'', ''audios''] \<mapsto> Dir True,
         Path [] [''out'', ''unknown''] \<mapsto> Dir True])"
    by (simp add: create_media_folders_def MEDIA_TYPES_def path_join_out mkdir_exist_ok_def
          parent_def Let_def)
  show ?thesis by (rule create_media_folders_idempotent [OF first])
qed

subsection \<open>The download status panel\<close>

text \<open>
  Claim C8. For a positive number \<open>t\<close> of attempted downloads the panel reports that all
  downloads succeeded when \<open>s = t\<close>, a partial success when \<open>0 < s < t\<close>, and that all
  downloads failed when \<open>s = 0\<close>.
\<close>

theorem status_panel_classification:
  assumes "0 < t"
  shows "(s = t \<longrightarrow>
            status_text (create_download_status_panel s t folder) = ''All downloads successful'' \<and>
            status_icon (create_download_status_panel s t folder) = CheckMark \<and>
            style (create_download_status_panel s t folder) = ''green'') \<and>
         (0 < s \<and> s < t \<longrightarrow>
            status_text (create_download_status_panel s t folder) =
              ''Partial success: '' @ str_int s @ ''/'' @ str_int t @ '' downloaded'' \<and>
            status_icon (create_download_status_panel s t folder) = Warning \<and>
            style (create_download_status_panel s t folder) = ''yellow'') \<and>
         (s = 0 \<longrightarrow>
            status_text (create_download_status_panel s t folder) = ''All downloads failed'' \<and>
            status_icon (create_download_status_panel s t folder) = CrossMark \<and>
            style (create_download_status_panel s t folder) = ''red'')"
  using assms by (simp add: create_download_status_panel_def)

theorem status_panel_classification_witness:
  "status_text (create_download_status_panel 2 3 ''downloaded_media'')
     = ''Partial success: 2/3 downloaded'' \<and>
   status_text (create_download_status_panel 0 3 ''downloaded_media'')
     = ''All downloads failed'' \<and>
   status_text (create_download_status_panel 3 3 ''downloaded_media'')
     = ''All downloads successful''"
proof -
  have t: "(0::int) < 3" by simp
  have n: "str_int 2 = ''2''" "str_int 3 = ''3''"
    by (simp_all add: str_int_def str_nat.simps digits_def)
  from status_panel_classification [OF t, of 2 "''downloaded_media''"]
       status_panel_classification [OF t, of 0 "''downloaded_media''"]
       status_panel_classification [OF t, of 3 "''downloaded_media''"]
  show ?thesis by (simp add: n)
qed

text \<open>
  Claim C10. Whenever the success count equals the number attempted the panel reports that
  all downloads succeeded; this includes an empty batch, with nothing attempted and
  nothing downloaded.
\<close>

theorem status_panel_all_attempted_succeeded:
  "create_download_status_panel t t folder =
     \<lparr>status_icon = CheckMark, status_text = ''All downloads successful'',
      style = ''green'', location = folder\<rparr> \<and>
   print_download_summary [] 0 folder organized =
     \<lparr>status_icon = CheckMark, status_text = ''All downloads successful'',
      style = ''green'', location = folder\<rparr>"
  by (simp add: create_download_status_panel_def print_download_summary_def)

subsection \<open>The URI resolver\<close>

text \<open>
  Claim C9, as stated, at a plain URL when the storage client library is missing: the
  resolver returns \<open>None\<close>, not the URL.
\<close>

theorem convert_plain_url_without_client:
  "\<not> startswith ''https://example.com/media/clip.mp4'' ''gs://'' \<and>
   convert_gcs_uri_to_signed_url (example_env\<lparr>GCS_AVAILABLE := False\<rparr>)
     ''https://example.com/media/clip.mp4'' 1 example_world = (None, example_world)"
  by (simp add: convert_gcs_uri_to_signed_url_def startswith_def example_env_def)

text \<open>
  Claim C9, amended. When the storage client library is available the resolver returns a
  plain reference unchanged and calls nobody. It returns \<open>None\<close> exactly when the library
  is missing, or the reference is a storage URI that does not split into a bucket and a
  blob path, or the reference is a storage URI and the storage client raises.
\<close>

theorem convert_gcs_uri_to_signed_url_cases:
  "(GCS_AVAILABLE E \<and> \<not> startswith uri ''gs://'' \<longrightarrow>
      convert_gcs_uri_to_signed_url E uri hours w = (Some uri, w)) \<and>
   (fst (convert_gcs_uri_to_signed_url E uri hours w) = None \<longleftrightarrow>
      \<not> GCS_AVAILABLE E \<or>
      (startswith uri ''gs://'' \<and>
        (length (gcs_path_parts uri) \<noteq> 2 \<or>
         generate_signed_url E (trace w) (fst (gcs_object uri)) (snd (gcs_object uri)) hours
           = None)))"
  by (simp add: convert_gcs_uri_to_signed_url_def gcs_object_def Let_def)

theorem convert_gcs_uri_to_signed_url_cases_witness:
  "convert_gcs_uri_to_signed_url example_env ''https://example.com/media/clip.mp4'' 1
     example_world = (Some ''https://example.com/media/clip.mp4'', example_world) \<and>
   fst (convert_gcs_uri_to_signed_url example_env ''gs://bucket'' 1 example_world) = None \<and>
   fst (convert_gcs_uri_to_signed_url example_env ''gs://locked/x/v.mp4'' 1 example_world)
     = None \<and>
   fst (convert_gcs_uri_to_signed_url example_env ''gs://bk/x/v.mp4'' 1 example_world)
     \<noteq> None"
proof -
  have parts: "gcs_path_parts ''gs://bucket'' = [''bucket'']"
    "gcs_path_parts ''gs://locked/x/v.mp4'' = [''locked'', ''x/v.mp4'']"
    "gcs_path_parts ''gs://bk/x/v.mp4'' = [''bk'', ''x/v.mp4'']"
    by (simp_all add: gcs_path_parts_def split1_def)
  have env: "GCS_AVAILABLE example_env"
    "generate_signed_url example_env h ''locked'' p 1 = None"
    "generate_signed_url example_env h ''bk'' p 1 \<noteq> None" for h p
    by (simp_all add: example_env_def)
  from convert_gcs_uri_to_signed_url_cases
         [of example_env "''https://example.com/media/clip.mp4''" 1 example_world]
       convert_gcs_uri_to_signed_url_cases [of example_env "''gs://bucket''" 1 example_world]
       convert_gcs_uri_to_signed_url_cases
         [of example_env "''gs://locked/x/v.mp4''" 1 example_world]
       convert_gcs_uri_to_signed_url_cases [of example_env "''gs://bk/x/v.mp4''" 1 example_world]
  show ?thesis
    by (simp add: parts env startswith_def gcs_object_def)
qed

subsection \<open>Target file names\<close>

text \<open>
  Claim C6, at the first reference of a batch when it is \<^verbatim>\<open>gs://bucket/\<close>: the derived
  file name is empty, where the claim has \<open>media_1\<close>. The branch for URLs does synthesize
  the name when the last segment is empty.
\<close>

theorem derive_filename_empty_for_bucket_root:
  "derive_filename E 1 ''gs://bucket/'' = Inr [] \<and>
   derive_filename example_env 1 ''https://example.com/'' = Inr ''media_1''"
  by (simp add: derive_filename_def startswith_def gcs_path_parts_def split1_def Path_of_def
        name_def example_env_def urlparse_path_model_def split_scheme_def split_netloc_def
        ascii_letters_def scheme_chars_def uses_params_def lower_def isupper_def
        str_nat.simps digits_def)

subsection \<open>Effects of the phases on the world\<close>

lemma deleted_objects_append:
  "deleted_objects (xs @ ys) = deleted_objects xs @ deleted_objects ys"
  by (induction xs rule: deleted_objects.induct) simp_all

lemma fetched_urls_append:
  "fetched_urls (xs @ ys) = fetched_urls xs @ fetched_urls ys"
  by (induction xs rule: fetched_urls.induct) simp_all

lemma new_events_append:
  "trace w' = trace w @ evs \<Longrightarrow> new_events w w' = evs"
  by (simp add: new_events_def)

lemma convert_effect:
  assumes "convert_gcs_uri_to_signed_url E u h w = (r, w')"
  shows "files w' = files w \<and>
         (\<exists>evs. trace w' = trace w @ evs \<and> deleted_objects evs = [] \<and> fetched_urls evs = [])"
  using assms
  by (auto simp: convert_gcs_uri_to_signed_url_def emit_def Let_def split: if_splits)

lemma convert_Some:
  assumes "convert_gcs_uri_to_signed_url E u h w = (Some s, w')" and "startswith u ''gs://''"
  shows "GCS_AVAILABLE E \<and> length (gcs_path_parts u) = 2 \<and>
         generate_signed_url E (trace w) (fst (gcs_object u)) (snd (gcs_object u)) h = Some s"
  using assms
  by (auto simp: convert_gcs_uri_to_signed_url_def gcs_object_def Let_def split: if_splits)

text \<open>What one pass through the loop body gives.\<close>

lemma prepare_one_effect:
  assumes "prepare_one E org folders dir n i u w = (r, w')"
  shows "files w' = files w \<and>
         (\<exists>evs. trace w' = trace w @ evs \<and> deleted_objects evs = [] \<and> fetched_urls evs = [])"
proof (cases "startswith u ''gs://''")
  case True
  obtain r1 w1 where c: "convert_gcs_uri_to_signed_url E u 1 w = (r1, w1)"
    by (cases "convert_gcs_uri_to_signed_url E u 1 w")
  from assms True c have "w' = w \<or> w' = w1"
    by (auto simp: prepare_one_def Let_def split: sum.splits option.splits if_splits)
  with convert_effect [OF c] show ?thesis by auto
next
  case False
  with assms have "w' = w"
    by (auto simp: prepare_one_def Let_def split: sum.splits)
  then show ?thesis by simp
qed

lemma prepare_one_Some:
  assumes "prepare_one E org folders dir n i u w = (Inr (Some ((url, fp, d), m)), w')"
  shows "m = (u, fp) \<and>
         (\<exists>fn. derive_filename E i u = Inr fn \<and> target_path org folders dir fn = Inr fp) \<and>
         (startswith u ''gs://'' \<longrightarrow>
            GCS_AVAILABLE E \<and> length (gcs_path_parts u) = 2 \<and> url \<noteq> [] \<and>
            generate_signed_url E (trace w) (fst (gcs_object u)) (snd (gcs_object u)) 1 = Some url) \<and>
         (\<not> startswith u ''gs://'' \<longrightarrow> url = u)"
proof (cases "startswith u ''gs://''")
  case True
  obtain r1 w1 where c: "convert_gcs_uri_to_signed_url E u 1 w = (r1, w1)"
    by (cases "convert_gcs_uri_to_signed_url E u 1 w")
  from assms True c have r1: "r1 = Some url" and ne: "url \<noteq> []" and m: "m = (u, fp)"
    and fn: "\<exists>fn. derive_filename E i u = Inr fn \<and> target_path org folders dir fn = Inr fp"
    by (auto simp: prepare_one_def Let_def split: sum.splits option.splits if_splits)
  from convert_Some [OF c [unfolded r1] True] ne m fn True show ?thesis by simp
next
  case False
  with assms show ?thesis
    by (auto simp: prepare_one_def Let_def split: sum.splits)
qed

lemma prepare_one_None:
  assumes "prepare_one E org folders dir n i u w = (Inr None, w')"
  shows "startswith u ''gs://'' \<and> fst (convert_gcs_uri_to_signed_url E u 1 w) \<in> {None, Some []}"
  using assms
  by (auto simp: prepare_one_def Let_def split: sum.splits option.splits if_splits prod.splits)

lemma prepare_downloads_Cons:
  assumes "prepare_downloads E org folders dir n i (u # us) w = (Inr (tasks, mapping), w2)"
  shows "\<exists>item w1 ts ms.
           prepare_one E org folders dir n i u w = (Inr item, w1) \<and>
           prepare_downloads E org folders dir n (Suc i) us w1 = (Inr (ts, ms), w2) \<and>
           (item = None \<and> tasks = ts \<and> mapping = ms \<or>
            (\<exists>t m. item = Some (t, m) \<and> tasks = t # ts \<and> mapping = m # ms))"
  using assms
  by (auto split: sum.splits prod.splits option.splits)

lemma prepare_downloads_effect:
  assumes "prepare_downloads E org folders dir n i us w = (r, w')"
  shows "files w' = files w \<and>
         (\<exists>evs. trace w' = trace w @ evs \<and> deleted_objects evs = [] \<and> fetched_urls evs = [])"
  using assms
proof (induction us arbitrary: i w r w')
  case Nil
  then show ?case by simp
next
  case (Cons u us)
  obtain r1 w1 where one: "prepare_one E org folders dir n i u w = (r1, w1)"
    by (cases "prepare_one E org folders dir n i u w")
  note e1 = prepare_one_effect [OF one]
  show ?case
  proof (cases r1)
    case (Inl e)
    with Cons.prems one have "w' = w1" by simp
    with e1 show ?thesis by simp
  next
    case (Inr item)
    obtain r2 w2 where rest: "prepare_downloads E org folders dir n (Suc i) us w1 = (r2, w2)"
      by (cases "prepare_downloads E org folders dir n (Suc i) us w1")
    from Cons.prems one Inr rest have "w' = w2"
      by (auto split: sum.splits prod.splits option.splits)
    with Cons.IH [OF rest] e1 show ?thesis
      by (auto simp: deleted_objects_append fetched_urls_append)
  qed
qed

subsection \<open>What the loop puts into the fetch set\<close>

lemma prepare_downloads_lockstep:
  assumes "prepare_downloads E org folders dir n i us w = (Inr (tasks, mapping), w')"
  shows "map (\<lambda>t. fst (snd t)) tasks = map snd mapping"
  using assms
proof (induction us arbitrary: i w tasks mapping)
  case Nil
  then show ?case by simp
next
  case (Cons u us)
  from prepare_downloads_Cons [OF Cons.prems] obtain item w1 ts ms where
    one: "prepare_one E org folders dir n i u w = (Inr item, w1)"
    and rest: "prepare_downloads E org folders dir n (Suc i) us w1 = (Inr (ts, ms), w')"
    and shape: "item = None \<and> tasks = ts \<and> mapping = ms \<or>
                (\<exists>t m. item = Some (t, m) \<and> tasks = t # ts \<and> mapping = m # ms)"
    by blast
  note IH = Cons.IH [OF rest]
  from shape show ?case
  proof
    assume "item = None \<and> tasks = ts \<and> mapping = ms"
    with IH show ?thesis by simp
  next
    assume "\<exists>t m. item = Some (t, m) \<and> tasks = t # ts \<and> mapping = m # ms"
    then obtain t m where s: "item = Some (t, m)" "tasks = t # ts" "mapping = m # ms" by blast
    obtain url fp d where t: "t = (url, fp, d)" by (cases t)
    from prepare_one_Some [OF one [unfolded s(1) t]] have "m = (u, fp)" by simp
    with IH s t show ?thesis by simp
  qed
qed

lemma prepare_downloads_subseq:
  assumes "prepare_downloads E org folders dir n i us w = (Inr (tasks, mapping), w')"
  shows "subseq (map fst mapping) us"
  using assms
proof (induction us arbitrary: i w tasks mapping)
  case Nil
  then show ?case by simp
next
  case (Cons u us)
  from prepare_downloads_Cons [OF Cons.prems] obtain item w1 ts ms where
    one: "prepare_one E org folders dir n i u w = (Inr item, w1)"
    and rest: "prepare_downloads E org folders dir n (Suc i) us w1 = (Inr (ts, ms), w')"
    and shape: "item = None \<and> tasks = ts \<and> mapping = ms \<or>
                (\<exists>t m. item = Some (t, m) \<and> tasks = t # ts \<and> mapping = m # ms)"
    by blast
  note IH = Cons.IH [OF rest]
  from shape show ?case
  proof
    assume "item = None \<and> tasks = ts \<and> mapping = ms"
    with IH show ?thesis by (simp add: list_emb_Cons)
  next
    assume "\<exists>t m. item = Some (t, m) \<and> tasks = t # ts \<and> mapping = m # ms"
    then obtain t m where s: "item = Some (t, m)" "tasks = t # ts" "mapping = m # ms" by blast
    obtain url fp d where t: "t = (url, fp, d)" by (cases t)
    from prepare_one_Some [OF one [unfolded s(1) t]] have "m = (u, fp)" by simp
    with IH s show ?thesis by simp
  qed
qed

lemma prepare_downloads_plain:
  assumes "prepare_downloads E org folders dir n i us w = (Inr (tasks, mapping), w')"
  shows "filter (\<lambda>v. \<not> startswith v ''gs://'') (map fst mapping)
           = filter (\<lambda>v. \<not> startswith v ''gs://'') us"
  using assms
proof (induction us arbitrary: i w tasks mapping)
  case Nil
  then show ?case by simp
next
  case (Cons u us)
  from prepare_downloads_Cons [OF Cons.prems] obtain item w1 ts ms where
    one: "prepare_one E org folders dir n i u w = (Inr item, w1)"
    and rest: "prepare_downloads E org folders dir n (Suc i) us w1 = (Inr (ts, ms), w')"
    and shape: "item = None \<and> tasks = ts \<and> mapping = ms \<or>
                (\<exists>t m. item = Some (t, m) \<and> tasks = t # ts \<and> mapping = m # ms)"
    by blast
  note IH = Cons.IH [OF rest]
  from shape show ?case
  proof
    assume a: "item = None \<and> tasks = ts \<and> mapping = ms"
    with prepare_one_None [OF one [unfolded conjunct1 [OF a]]] IH show ?thesis by simp
  next
    assume "\<exists>t m. item = Some (t, m) \<and> tasks = t # ts \<and> mapping = m # ms"
    then obtain t m where s: "item = Some (t, m)" "tasks = t # ts" "mapping = m # ms" by blast
    obtain url fp d where t: "t = (url, fp, d)" by (cases t)
    from prepare_one_Some [OF one [unfolded s(1) t]] have "m = (u, fp)" by simp
    with IH s show ?thesis by simp
  qed
qed

text \<open>A storage reference in the fetch set has been signed.\<close>

lemma prepare_downloads_signed:
  assumes "prepare_downloads E org folders dir n i us w = (Inr (tasks, mapping), w')"
    and "(u, fp) \<in> set mapping" and "startswith u ''gs://''"
  shows "GCS_AVAILABLE E \<and> length (gcs_path_parts u) = 2 \<and>
         (\<exists>h s. generate_signed_url E h (fst (gcs_object u)) (snd (gcs_object u)) 1 = Some s
                 \<and> s \<noteq> [])"
  using assms
proof (induction us arbitrary: i w tasks mapping)
  case Nil
  then show ?case by simp
next
  case (Cons v us)
  from prepare_downloads_Cons [OF Cons.prems(1)] obtain item w1 ts ms where
    one: "prepare_one E org folders dir n i v w = (Inr item, w1)"
    and rest: "prepare_downloads E org folders dir n (Suc i) us w1 = (Inr (ts, ms), w')"
    and shape: "item = None \<and> tasks = ts \<and> mapping = ms \<or>
                (\<exists>t m. item = Some (t, m) \<and> tasks = t # ts \<and> mapping = m # ms)"
    by blast
  note IH = Cons.IH [OF rest _ Cons.prems(3)]
  from shape show ?case
  proof
    assume "item = None \<and> tasks = ts \<and> mapping = ms"
    with IH Cons.prems(2) show ?thesis by simp
  next
    assume "\<exists>t m. item = Some (t, m) \<and> tasks = t # ts \<and> mapping = m # ms"
    then obtain t m where s: "item = Some (t, m)" "tasks = t # ts" "mapping = m # ms" by blast
    obtain url fp' d where t: "t = (url, fp', d)" by (cases t)
    note S = prepare_one_Some [OF one [unfolded s(1) t]]
    show ?thesis
    proof (cases "(u, fp) = m")
      case True
      with S have "v = u" by simp
      with S Cons.prems(3) show ?thesis by blast
    next
      case False
      with Cons.prems(2) s have "(u, fp) \<in> set ms" by simp
      then show ?thesis by (rule IH)
    qed
  qed
qed

text \<open>Where an entry of the fetch set comes from.\<close>

lemma prepare_downloads_origin:
  assumes "prepare_downloads E org folders dir n i us w = (Inr (tasks, mapping), w')"
    and "(u, fp) \<in> set mapping"
  shows "\<exists>k < length us. us ! k = u \<and>
           (\<exists>fn. derive_filename E (i + k) u = Inr fn \<and> target_path org folders dir fn = Inr fp)"
  using assms
proof (induction us arbitrary: i w tasks mapping)
  case Nil
  then show ?case by simp
next
  case (Cons v us)
  from prepare_downloads_Cons [OF Cons.prems(1)] obtain item w1 ts ms where
    one: "prepare_one E org folders dir n i v w = (Inr item, w1)"
    and rest: "prepare_downloads E org folders dir n (Suc i) us w1 = (Inr (ts, ms), w')"
    and shape: "item = None \<and> tasks = ts \<and> mapping = ms \<or>
                (\<exists>t m. item = Some (t, m) \<and> tasks = t # ts \<and> mapping = m # ms)"
    by blast
  have later: "\<exists>k < length (v # us). (v # us) ! k = u \<and>
           (\<exists>fn. derive_filename E (i + k) u = Inr fn \<and> target_path org folders dir fn = Inr fp)"
    if "(u, fp) \<in> set ms"
  proof -
    from Cons.IH [OF rest that] obtain k where
      k: "k < length us" "us ! k = u"
      "\<exists>fn. derive_filename E (Suc i + k) u = Inr fn \<and> target_path org folders dir fn = Inr fp"
      by blast
    then have "Suc k < length (v # us) \<and> (v # us) ! Suc k = u \<and>
      (\<exists>fn. derive_filename E (i + Suc k) u = Inr fn \<and> target_path org folders dir fn = Inr fp)"
      by simp
    then show ?thesis by blast
  qed
  from shape show ?case
  proof
    assume "item = None \<and> tasks = ts \<and> mapping = ms"
    with Cons.prems(2) later show ?thesis by simp
  next
    assume "\<exists>t m. item = Some (t, m) \<and> tasks = t # ts \<and> mapping = m # ms"
    then obtain t m where s: "item = Some (t, m)" "tasks = t # ts" "mapping = m # ms" by blast
    obtain url fp' d where t: "t = (url, fp', d)" by (cases t)
    note S = prepare_one_Some [OF one [unfolded s(1) t]]
    show ?thesis
    proof (cases "(u, fp) = m")
      case True
      with S have "0 < length (v # us) \<and> (v # us) ! 0 = u \<and>
        (\<exists>fn. derive_filename E (i + 0) u = Inr fn \<and> target_path org folders dir fn = Inr fp)"
        by auto
      then show ?thesis by blast
    next
      case False
      with Cons.prems(2) s have "(u, fp) \<in> set ms" by simp
      then show ?thesis by (rule later)
    qed
  qed
qed

text \<open>A reference whose exchange cannot fail is in the fetch set.\<close>

lemma prepare_downloads_accepted:
  assumes "prepare_downloads E org folders dir n i us w = (Inr (tasks, mapping), w')"
    and "v \<in> set us"
    and "GCS_AVAILABLE E" and "length (gcs_path_parts v) = 2"
    and "\<forall>h. \<exists>s. generate_signed_url E h (fst (gcs_object v)) (snd (gcs_object v)) 1 = Some s
                 \<and> s \<noteq> []"
  shows "v \<in> fst ` set mapping"
  using assms(1,2)
proof (induction us arbitrary: i w tasks mapping)
  case Nil
  then show ?case by simp
next
  case (Cons u us)
  from prepare_downloads_Cons [OF Cons.prems(1)] obtain item w1 ts ms where
    one: "prepare_one E org folders dir n i u w = (Inr item, w1)"
    and rest: "prepare_downloads E org folders dir n (Suc i) us w1 = (Inr (ts, ms), w')"
    and shape: "item = None \<and> tasks = ts \<and> mapping = ms \<or>
                (\<exists>t m. item = Some (t, m) \<and> tasks = t # ts \<and> mapping = m # ms)"
    by blast
  from shape show ?case
  proof
    assume a: "item = None \<and> tasks = ts \<and> mapping = ms"
    from prepare_one_None [OF one [unfolded conjunct1 [OF a]]]
    have gs: "startswith u ''gs://''"
      and f: "fst (convert_gcs_uri_to_signed_url E u 1 w) \<in> {None, Some []}" by simp_all
    have "u \<noteq> v"
    proof
      assume uv: "u = v"
      from assms(5) obtain s where
        "generate_signed_url E (trace w) (fst (gcs_object v)) (snd (gcs_object v)) 1 = Some s"
        and "s \<noteq> []" by blast
      with uv assms(3,4) gs f show False
        by (auto simp: convert_gcs_uri_to_signed_url_def gcs_object_def Let_def)
    qed
    with Cons.prems(2) have "v \<in> set us" by simp
    from Cons.IH [OF rest this] a show ?thesis by simp
  next
    assume "\<exists>t m. item = Some (t, m) \<and> tasks = t # ts \<and> mapping = m # ms"
    then obtain t m where s: "item = Some (t, m)" "tasks = t # ts" "mapping = m # ms" by blast
    obtain url fp d where t: "t = (url, fp, d)" by (cases t)
    from prepare_one_Some [OF one [unfolded s(1) t]] have m: "m = (u, fp)" by simp
    show ?thesis
    proof (cases "u = v")
      case True
      with m s show ?thesis by simp
    next
      case False
      with Cons.prems(2) have "v \<in> set us" by simp
      from Cons.IH [OF rest this] s show ?thesis by simp
    qed
  qed
qed

subsection \<open>Fetching\<close>

lemma open_wb_result:
  assumes "open_wb p fs = Inr fs'"
  shows "fs' p = Some File \<and> (\<forall>q nd. fs q = Some nd \<longrightarrow> fs' q = Some nd)"
  using assms
  by (auto simp: open_wb_def split: option.splits node.splits if_splits)

lemma download_media_file_effect:
  assumes "download_media_file E url fp d w = (ok, w')"
  shows "trace w' = trace w @ [Get url] \<and>
         (ok \<longrightarrow> files w' fp = Some File) \<and>
         (\<forall>q nd. files w q = Some nd \<longrightarrow> files w' q = Some nd)"
proof (cases "open_wb fp (files w)")
  case (Inl e)
  with assms show ?thesis
    by (auto simp: download_media_file_def emit_def Let_def split: response.splits)
next
  case (Inr fs)
  from open_wb_result [OF Inr] assms Inr show ?thesis
    by (auto simp: download_media_file_def emit_def Let_def split: response.splits)
qed

lemma gather_effect:
  assumes "gather E tasks w = (res, w')"
  shows "length res = length tasks \<and>
         trace w' = trace w @ map (\<lambda>t. Get (fst t)) tasks \<and>
         (\<forall>q nd. files w q = Some nd \<longrightarrow> files w' q = Some nd) \<and>
         (\<forall>k < length tasks. res ! k \<longrightarrow> files w' (fst (snd (tasks ! k))) = Some File)"
  using assms
proof (induction tasks arbitrary: w res w')
  case Nil
  then show ?case by simp
next
  case (Cons t tasks)
  obtain url fp d where t: "t = (url, fp, d)" by (cases t)
  obtain ok w1 where one: "download_media_file E url fp d w = (ok, w1)"
    by (cases "download_media_file E url fp d w")
  obtain rs w2 where rest: "gather E tasks w1 = (rs, w2)"
    by (cases "gather E tasks w1")
  from Cons.prems t one rest have res: "res = ok # rs" and w': "w' = w2" by simp_all
  note D = download_media_file_effect [OF one]
  note G = Cons.IH [OF rest]
  have len: "length res = length (t # tasks)" using res G by simp
  have tr: "trace w' = trace w @ map (\<lambda>t. Get (fst t)) (t # tasks)"
    using D G w' t by simp
  have mono: "\<forall>q nd. files w q = Some nd \<longrightarrow> files w' q = Some nd"
    using D G w' by blast
  have succ: "res ! k \<longrightarrow> files w' (fst (snd ((t # tasks) ! k))) = Some File"
    if "k < length (t # tasks)" for k
  proof (cases k)
    case 0
    with res t D G w' show ?thesis by auto
  next
    case (Suc j)
    with that res G w' show ?thesis by auto
  qed
  from len tr mono succ show ?case by blast
qed

subsection \<open>Cleanup\<close>

lemma delete_gcs_file_effect:
  assumes "delete_gcs_file E u w = (ok, w')"
  shows "files w' = files w \<and>
         trace w' = trace w @
           (if GCS_AVAILABLE E \<and> startswith u ''gs://'' \<and> length (gcs_path_parts u) = 2
            then [Delete (fst (gcs_object u)) (snd (gcs_object u))] else [])"
  using assms
  by (auto simp: delete_gcs_file_def emit_def gcs_object_def Let_def split: if_splits)

lemma cleanup_loop_effect:
  assumes "cleanup_loop E ds c w = (c', w')"
  shows "files w' = files w \<and>
         trace w' = trace w @
           map (\<lambda>u. Delete (fst (gcs_object u)) (snd (gcs_object u)))
             (filter (\<lambda>u. startswith u ''gs://'' \<and> GCS_AVAILABLE E \<and> length (gcs_path_parts u) = 2)
                (map fst ds))"
  using assms
proof (induction ds arbitrary: c w)
  case Nil
  then show ?case by simp
next
  case (Cons d ds)
  obtain u p where d: "d = (u, p)" by (cases d)
  show ?case
  proof (cases "startswith u ''gs://''")
    case True
    obtain ok w1 where del: "delete_gcs_file E u w = (ok, w1)"
      by (cases "delete_gcs_file E u w")
    from Cons.prems d True del
    have rest: "cleanup_loop E ds (if ok then Suc c else c) w1 = (c', w')" by simp
    from delete_gcs_file_effect [OF del] Cons.IH [OF rest] d True show ?thesis by auto
  next
    case False
    with Cons.prems d have rest: "cleanup_loop E ds c w = (c', w')" by simp
    from Cons.IH [OF rest] d False show ?thesis by simp
  qed
qed

lemma deleted_objects_map_Delete:
  "deleted_objects (map (\<lambda>u. Delete (f u) (g u)) us) = map (\<lambda>u. (f u, g u)) us"
  by (induction us) simp_all

lemma deleted_objects_map_Get:
  "deleted_objects (map (\<lambda>t. Get (f t)) ts) = []"
  by (induction ts) simp_all

lemma fetched_urls_map_Get:
  "fetched_urls (map (\<lambda>t. Get (f t)) ts) = map f ts"
  by (induction ts) simp_all

lemma fetched_urls_map_Delete:
  "fetched_urls (map (\<lambda>u. Delete (f u) (g u)) us) = []"
  by (induction us) simp_all

subsection \<open>The run as a whole\<close>

lemma download_media_body_Inr:
  assumes "download_media_body E uris out cl org w = (Inr l, w')"
  shows "\<exists>dir folders fs tasks mapping w1 res w2.
           prepare_destination out org (files w) = (Inr (dir, folders), fs) \<and>
           prepare_downloads E org folders dir (length uris) 1 uris (w\<lparr>files := fs\<rparr>)
             = (Inr (tasks, mapping), w1) \<and>
           gather E tasks w1 = (res, w2) \<and>
           l = \<lparr>download_tasks = tasks, file_mapping = mapping, results = res,
                 successful_downloads = map fst (filter snd (zip mapping res))\<rparr> \<and>
           w' = (if cl \<and> map fst (filter snd (zip mapping res)) \<noteq> []
                 then snd (cleanup_loop E (map fst (filter snd (zip mapping res))) 0 w2)
                 else w2)"
  using assms
  by (auto simp: download_media_body_def Let_def split: prod.splits sum.splits)

lemma successful_fst:
  "map f (map fst (filter snd (zip xs bs))) = map fst (filter snd (zip (map f xs) bs))"
proof (induction xs arbitrary: bs)
  case Nil
  then show ?case by simp
next
  case (Cons x xs)
  then show ?case by (cases bs) simp_all
qed

lemma successful_subseq:
  "subseq (map fst (filter snd (zip xs bs))) xs"
proof (induction xs arbitrary: bs)
  case Nil
  then show ?case by simp
next
  case (Cons x xs)
  then show ?case by (cases bs) (simp_all add: list_emb_Cons)
qed

lemma successful_index:
  assumes "m \<in> set (map fst (filter snd (zip xs bs)))"
  shows "\<exists>j. j < length xs \<and> j < length bs \<and> xs ! j = m \<and> bs ! j"
proof -
  from assms obtain b where "(m, b) \<in> set (zip xs bs)" and "b" by auto
  then show ?thesis by (auto simp: set_zip)
qed

lemma successful_member:
  assumes "u \<in> set (map fst (map fst (filter snd (zip xs bs))))"
  shows "\<exists>p. (u, p) \<in> set xs"
proof -
  from assms obtain x where x: "x \<in> set (zip xs bs)" and u: "fst (fst x) = u"
    by auto
  obtain p b where "x = ((u, p), b)" using u by (cases x, cases "fst x") auto
  with x have "(u, p) \<in> set xs" by (auto dest: set_zip_leftD)
  then show ?thesis by blast
qed

text \<open>The trace of a run that returns.\<close>

lemma download_media_body_trace:
  assumes "download_media_body E uris out cl org w = (Inr l, w')"
  shows "\<exists>evs. deleted_objects evs = [] \<and> fetched_urls evs = [] \<and>
           new_events w w' = evs @ map (\<lambda>t. Get (fst t)) (download_tasks l) @
             (if cl then
                map (\<lambda>u. Delete (fst (gcs_object u)) (snd (gcs_object u)))
                  (filter (\<lambda>u. startswith u ''gs://'') (map fst (successful_downloads l)))
              else [])"
proof -
  from download_media_body_Inr [OF assms] obtain dir folders fs tasks mapping w1 res w2 where
    prep: "prepare_downloads E org folders dir (length uris) 1 uris (w\<lparr>files := fs\<rparr>)
             = (Inr (tasks, mapping), w1)"
    and gath: "gather E tasks w1 = (res, w2)"
    and l: "l = \<lparr>download_tasks = tasks, file_mapping = mapping, results = res,
                 successful_downloads = map fst (filter snd (zip mapping res))\<rparr>"
    and w': "w' = (if cl \<and> map fst (filter snd (zip mapping res)) \<noteq> []
                 then snd (cleanup_loop E (map fst (filter snd (zip mapping res))) 0 w2)
                 else w2)"
    by blast
  let ?succ = "map fst (filter snd (zip mapping res))"
  let ?del = "\<lambda>u. Delete (fst (gcs_object u)) (snd (gcs_object u))"
  from prepare_downloads_effect [OF prep] obtain evs where
    t1: "trace w1 = trace w @ evs" and q: "deleted_objects evs = []" "fetched_urls evs = []"
    by auto
  from gather_effect [OF gath] have t2: "trace w2 = trace w1 @ map (\<lambda>t. Get (fst t)) tasks"
    by simp
  have signed: "startswith u ''gs://'' \<and> GCS_AVAILABLE E \<and> length (gcs_path_parts u) = 2
                  \<longleftrightarrow> startswith u ''gs://''"
    if "u \<in> set (map fst ?succ)" for u
  proof -
    from successful_member [OF that] obtain p where "(u, p) \<in> set mapping" by blast
    from prepare_downloads_signed [OF prep this] show ?thesis by blast
  qed
  have filt: "filter (\<lambda>u. startswith u ''gs://'' \<and> GCS_AVAILABLE E \<and> length (gcs_path_parts u) = 2)
                (map fst ?succ) = filter (\<lambda>u. startswith u ''gs://'') (map fst ?succ)"
    by (rule filter_cong [OF refl]) (rule signed)
  have t3: "trace w' = trace w2 @ (if cl then map ?del (filter (\<lambda>u. startswith u ''gs://'') (map fst ?succ)) else [])"
  proof (cases "cl \<and> ?succ \<noteq> []")
    case True
    obtain c w3 where cl: "cleanup_loop E ?succ 0 w2 = (c, w3)"
      by (cases "cleanup_loop E ?succ 0 w2")
    from cleanup_loop_effect [OF cl] w' True cl filt show ?thesis by simp
  next
    case False
    with w' show ?thesis by auto
  qed
  from t1 t2 t3 have "new_events w w' = evs @ map (\<lambda>t. Get (fst t)) tasks @
      (if cl then map ?del (filter (\<lambda>u. startswith u ''gs://'') (map fst ?succ)) else [])"
    by (simp add: new_events_def)
  with q l show ?thesis by auto
qed

subsection \<open>File names and paths\<close>

lemma split_char_pieces:
  "x \<in> set (split_char d s) \<Longrightarrow> d \<notin> set x"
proof (induction s arbitrary: x)
  case Nil
  then show ?case by simp
next
  case (Cons c s)
  then show ?case
    by (cases "split_char d s") (auto split: if_splits)
qed

lemma split_char_whole:
  "d \<notin> set s \<Longrightarrow> split_char d s = [s]"
  by (induction s) auto

lemma name_Path_of:
  "CHR ''/'' \<notin> set (name (Path_of s)) \<and> name (Path_of s) \<noteq> ''.''"
proof (cases "tail (Path_of s) = []")
  case True
  then show ?thesis by (simp add: name_def)
next
  case False
  then have "name (Path_of s) \<in> set (tail (Path_of s))"
    by (simp add: name_def)
  then show ?thesis
    by (auto simp: Path_of_def Let_def dest: split_char_pieces)
qed

lemma str_nat_digits:
  "set (str_nat n) \<subseteq> set digits"
proof (induction n rule: str_nat.induct)
  case (1 n)
  show ?case
  proof (cases "n < 10")
    case True
    then have "digits ! n \<in> set digits" by (intro nth_mem) (simp add: digits_def)
    with True show ?thesis by (subst str_nat.simps) simp
  next
    case False
    have "digits ! (n mod 10) \<in> set digits" by (intro nth_mem) (simp add: digits_def)
    with False 1 show ?thesis by (subst str_nat.simps) simp
  qed
qed

lemma media_name:
  "CHR ''/'' \<notin> set (''media_'' @ str_nat i) \<and> ''media_'' @ str_nat i \<noteq> ''.''"
proof -
  have "CHR ''/'' \<notin> set digits" by (simp add: digits_def)
  with str_nat_digits [of i] have "CHR ''/'' \<notin> set (str_nat i)" by blast
  then show ?thesis by simp
qed

lemma derive_filename_name:
  assumes "derive_filename E i u = Inr fn"
  shows "CHR ''/'' \<notin> set fn \<and> fn \<noteq> ''.''"
proof -
  from assms have "fn = ''media_'' @ str_nat i \<or> (\<exists>s. fn = name (Path_of s))"
    by (auto simp: derive_filename_def Let_def split: if_splits sum.splits)
  with media_name [of i] name_Path_of show ?thesis by metis
qed

lemma Path_of_name:
  assumes "CHR ''/'' \<notin> set s" and "s \<noteq> ''.''"
  shows "Path_of s = Path [] (if s = [] then [] else [s])"
proof -
  from assms(1) have "dropWhile (\<lambda>c. c = CHR ''/'') s = s"
    by (cases s) auto
  with assms show ?thesis
    by (simp add: Path_of_def split_char_whole)
qed

lemma path_join_name:
  assumes "CHR ''/'' \<notin> set s" and "s \<noteq> ''.''"
  shows "path_join d s = below d (if s = [] then [] else [s])"
  using Path_of_name [OF assms] by (simp add: path_join_def below_def)

lemma path_join_below:
  assumes "CHR ''/'' \<notin> set s" and "s \<noteq> ''.''"
  shows "path_join (below d cs) s = below d (cs @ (if s = [] then [] else [s]))"
  using Path_of_name [OF assms] by (simp add: path_join_def below_def)

lemma get_media_type_range:
  "get_media_type e \<in> {''videos'', ''images'', ''audios'', ''unknown''}"
  by (simp add: get_media_type_def MEDIA_TYPES_def)

subsection \<open>The destination\<close>

lemma path_join_category:
  "path_join d ''videos'' = below d [''videos'']"
  "path_join d ''images'' = below d [''images'']"
  "path_join d ''audios'' = below d [''audios'']"
  "path_join d ''unknown'' = below d [''unknown'']"
  by (simp_all add: path_join_name)

lemma create_media_folders_result:
  assumes "create_media_folders d fs = (Inr folders, fs')"
  shows "folders = four_folders d \<and>
         (\<forall>c \<in> {''videos'', ''images'', ''audios'', ''unknown''}. \<exists>b. fs' (below d [c]) = Some (Dir b)) \<and>
         (\<forall>q b. fs q = Some (Dir b) \<longrightarrow> fs' q = Some (Dir b))"
proof -
  let ?keys = "map fst MEDIA_TYPES"
  from assms obtain fl fs1 where
    l: "create_media_folders_loop d ?keys [] fs = (Inr fl, fs1)"
    and m: "mkdir_exist_ok (path_join d ''unknown'') fs1 = Inr fs'"
    and f: "folders = AList.update ''unknown'' (path_join d ''unknown'') fl"
    by (auto simp: create_media_folders_def Let_def split: sum.splits prod.splits)
  note L = create_media_folders_loop_result [OF l]
  note M = mkdir_exist_ok_result [OF m]
  from L have fl: "fl = [(''videos'', below d [''videos'']), (''images'', below d [''images'']),
      (''audios'', below d [''audios''])]"
    by (simp add: MEDIA_TYPES_def path_join_category)
  have 1: "folders = four_folders d"
    using f fl by (simp add: four_folders_def path_join_category)
  from L have "\<forall>c \<in> {''videos'', ''images'', ''audios''}. \<exists>b. fs1 (below d [c]) = Some (Dir b)"
    by (simp add: MEDIA_TYPES_def path_join_category)
  with M have 2: "\<forall>c \<in> {''videos'', ''images'', ''audios'', ''unknown''}. \<exists>b. fs' (below d [c]) = Some (Dir b)"
    by (auto simp: path_join_category)
  from L M have 3: "\<forall>q b. fs q = Some (Dir b) \<longrightarrow> fs' q = Some (Dir b)" by blast
  from 1 2 3 show ?thesis by blast
qed

lemma prepare_destination_result:
  assumes "prepare_destination out org fs = (Inr (dir, folders), fs')"
  shows "dir = download_dir_of out \<and> (\<exists>b. fs' dir = Some (Dir b)) \<and>
         (org \<longrightarrow> folders = four_folders dir \<and>
            (\<forall>c \<in> {''videos'', ''images'', ''audios'', ''unknown''}. \<exists>b. fs' (below dir [c]) = Some (Dir b)))"
proof -
  let ?d = "download_dir_of out"
  from assms obtain fs1 where m: "mkdir_exist_ok ?d fs = Inr fs1"
    by (auto simp: prepare_destination_def Let_def split: sum.splits)
  note M = mkdir_exist_ok_result [OF m]
  show ?thesis
  proof (cases org)
    case True
    with assms m have c: "create_media_folders ?d fs1 = (Inr folders, fs')" and d: "dir = ?d"
      by (auto simp: prepare_destination_def Let_def split: sum.splits prod.splits)
    from create_media_folders_result [OF c] M d show ?thesis by blast
  next
    case False
    with assms m have "dir = ?d" "fs' = fs1"
      by (auto simp: prepare_destination_def Let_def)
    with M False show ?thesis by simp
  qed
qed

lemma target_path_organized:
  "target_path True (four_folders d) d fn =
     Inr (path_join (below d [get_media_type (lower (path_suffix (Path_of fn)))]) fn)"
  using get_media_type_range [of "lower (path_suffix (Path_of fn))"]
  by (auto simp: target_path_def four_folders_def Let_def)

lemma target_path_flat:
  "target_path False folders d fn = Inr (path_join d fn)"
  by (simp add: target_path_def)

subsection \<open>The loop returns\<close>

lemma prepare_one_returns:
  assumes "\<not> startswith u ''gs://'' \<longrightarrow> (\<exists>p. urlparse_path E u = Inr p)"
    and "org \<longrightarrow> map_of folders ''unknown'' \<noteq> None"
  shows "\<exists>item w'. prepare_one E org folders dir n i u w = (Inr item, w')"
proof -
  have "\<exists>fn. derive_filename E i u = Inr fn"
  proof (cases "startswith u ''gs://''")
    case True
    then show ?thesis by (simp add: derive_filename_def Let_def)
  next
    case False
    with assms(1) obtain p where "urlparse_path E u = Inr p" by blast
    with False show ?thesis by (simp add: derive_filename_def Let_def)
  qed
  then obtain fn where fn: "derive_filename E i u = Inr fn" by blast
  have "\<exists>fp. target_path org folders dir fn = Inr fp"
  proof (cases org)
    case True
    with assms(2) obtain fb where "map_of folders ''unknown'' = Some fb" by auto
    with True show ?thesis by (simp add: target_path_def Let_def)
  next
    case False
    then show ?thesis by (simp add: target_path_def)
  qed
  then obtain fp where fp: "target_path org folders dir fn = Inr fp" by blast
  obtain r1 w1 where c: "convert_gcs_uri_to_signed_url E u 1 w = (r1, w1)"
    by (cases "convert_gcs_uri_to_signed_url E u 1 w")
  from fn fp c show ?thesis
    by (auto simp: prepare_one_def Let_def split: option.splits)
qed

lemma prepare_downloads_returns:
  assumes "\<forall>v \<in> set us. \<not> startswith v ''gs://'' \<longrightarrow> (\<exists>p. urlparse_path E v = Inr p)"
    and "org \<longrightarrow> map_of folders ''unknown'' \<noteq> None"
  shows "\<exists>tasks mapping w'.
           prepare_downloads E org folders dir n i us w = (Inr (tasks, mapping), w')"
  using assms(1)
proof (induction us arbitrary: i w)
  case Nil
  then show ?case by simp
next
  case (Cons u us)
  from Cons.prems have "\<not> startswith u ''gs://'' \<longrightarrow> (\<exists>p. urlparse_path E u = Inr p)" by simp
  from prepare_one_returns [OF this assms(2)] obtain item w1 where
    one: "prepare_one E org folders dir n i u w = (Inr item, w1)" by blast
  from Cons.prems have "\<forall>v \<in> set us. \<not> startswith v ''gs://'' \<longrightarrow> (\<exists>p. urlparse_path E v = Inr p)"
    by simp
  from Cons.IH [OF this] obtain ts ms w2 where
    rest: "prepare_downloads E org folders dir n (Suc i) us w1 = (Inr (ts, ms), w2)" by blast
  from one rest show ?case
    by (cases item) auto
qed

subsection \<open>The example run\<close>

lemma example_run:
  "download_media_body example_env example_batch (Some ''out'') True True example_world =
     (Inr example_locals,
      snd (download_media_body example_env example_batch (Some ''out'') True True example_world))"
proof -
  have "fst (download_media_body example_env example_batch (Some ''out'') True True example_world)
          = Inr example_locals"
    by code_simp
  then show ?thesis by (simp add: prod_eq_iff)
qed

subsection \<open>Remote cleanup\<close>

text \<open>
  Claim C5. In a run that returns, the deletes issued are exactly those for the references
  that were downloaded successfully and are storage URIs, in that order, when cleanup is
  switched on, and none otherwise. So successful downloads of plain URLs alone cause no
  delete, and every deleted object belongs to a reference among the successful downloads.
\<close>

theorem cleanup_deletes_successful_storage_uris:
  assumes "download_media_body E uris out cl org w = (Inr l, w')"
  shows "deleted_objects (new_events w w') =
           (if cl then
              map gcs_object
                (filter (\<lambda>u. startswith u ''gs://'') (map fst (successful_downloads l)))
            else []) \<and>
         ((\<forall>u \<in> fst ` set (successful_downloads l). \<not> startswith u ''gs://'')
            \<longrightarrow> deleted_objects (new_events w w') = []) \<and>
         set (deleted_objects (new_events w w'))
           \<subseteq> gcs_object ` fst ` set (successful_downloads l)"
proof -
  from download_media_body_trace [OF assms] obtain evs where
    "deleted_objects evs = []"
    and "new_events w w' = evs @ map (\<lambda>t. Get (fst t)) (download_tasks l) @
             (if cl then
                map (\<lambda>u. Delete (fst (gcs_object u)) (snd (gcs_object u)))
                  (filter (\<lambda>u. startswith u ''gs://'') (map fst (successful_downloads l)))
              else [])"
    by blast
  then have eq: "deleted_objects (new_events w w') =
           (if cl then
              map gcs_object
                (filter (\<lambda>u. startswith u ''gs://'') (map fst (successful_downloads l)))
            else [])"
    by (simp add: deleted_objects_append deleted_objects_map_Get deleted_objects_map_Delete)
  have none: "deleted_objects (new_events w w') = []"
    if "\<forall>u \<in> fst ` set (successful_downloads l). \<not> startswith u ''gs://''"
  proof -
    from that
    have "filter (\<lambda>u. startswith u ''gs://'') (map fst (successful_downloads l)) = []"
      by (simp add: filter_empty_conv)
    with eq show ?thesis by simp
  qed
  have sub: "set (deleted_objects (new_events w w'))
               \<subseteq> gcs_object ` fst ` set (successful_downloads l)"
    unfolding eq by auto
  from eq none sub show ?thesis by blast
qed

theorem cleanup_deletes_successful_storage_uris_witness:
  "deleted_objects (new_events example_world
     (snd (download_media_body example_env example_batch (Some ''out'') True True
             example_world)))
   = [(''bk'', ''x/song.MP3'')]"
proof -
  have "gcs_object ''gs://bk/x/song.MP3'' = (''bk'', ''x/song.MP3'')"
    by (simp add: gcs_object_def gcs_path_parts_def split1_def)
  with cleanup_deletes_successful_storage_uris [OF example_run] show ?thesis
    by (simp add: example_locals_def startswith_def)
qed

subsection \<open>Results and their order\<close>

text \<open>
  Claim C4. In a run that returns and in which every reference reached the fetch phase
  (the fetch set names the references of the batch, one by one), there is one fetch and
  one result for each input reference, whatever the results are; the references returned
  are those whose result is a success, in input order.
\<close>

theorem fetch_results_cover_batch:
  assumes run: "download_media_body E uris out cl org w = (Inr l, w')"
    and all: "map fst (file_mapping l) = uris"
  shows "length (results l) = length uris \<and>
         length (fetched_urls (new_events w w')) = length uris \<and>
         successful_downloads l = map fst (filter snd (zip (file_mapping l) (results l))) \<and>
         map fst (successful_downloads l) = map fst (filter snd (zip uris (results l))) \<and>
         subseq (map fst (successful_downloads l)) uris"
proof -
  from download_media_body_Inr [OF run] obtain dir folders fs tasks mapping w1 res w2 where
    prep: "prepare_downloads E org folders dir (length uris) 1 uris (w\<lparr>files := fs\<rparr>)
             = (Inr (tasks, mapping), w1)"
    and gath: "gather E tasks w1 = (res, w2)"
    and l: "l = \<lparr>download_tasks = tasks, file_mapping = mapping, results = res,
                 successful_downloads = map fst (filter snd (zip mapping res))\<rparr>"
    by blast
  from prepare_downloads_lockstep [OF prep] have "length tasks = length mapping"
    by (rule map_eq_imp_length_eq)
  moreover from all l have m: "map fst mapping = uris" by simp
  then have "length mapping = length uris" by (metis length_map)
  moreover from gather_effect [OF gath] have "length res = length tasks" by simp
  ultimately have len: "length res = length uris" "length tasks = length uris" by simp_all
  from download_media_body_trace [OF run] obtain evs where
    "fetched_urls evs = []"
    and "new_events w w' = evs @ map (\<lambda>t. Get (fst t)) (download_tasks l) @
             (if cl then
                map (\<lambda>u. Delete (fst (gcs_object u)) (snd (gcs_object u)))
                  (filter (\<lambda>u. startswith u ''gs://'') (map fst (successful_downloads l)))
              else [])"
    by blast
  then have f: "fetched_urls (new_events w w') = map fst (download_tasks l)"
    by (simp add: fetched_urls_append fetched_urls_map_Get fetched_urls_map_Delete)
  have s: "map fst (successful_downloads l) = map fst (filter snd (zip uris res))"
    using l m successful_fst [of fst mapping res] by simp
  have "subseq (map fst (filter snd (zip uris res))) uris" by (rule successful_subseq)
  with s len f l show ?thesis by simp
qed

theorem fetch_results_cover_batch_witness:
  "length (results example_locals) = 3 \<and>
   length (fetched_urls (new_events example_world
     (snd (download_media_body example_env example_batch (Some ''out'') True True
             example_world)))) = 3 \<and>
   map fst (successful_downloads example_locals)
     = [''https://example.com/media/clip.mp4'', ''gs://bk/x/song.MP3''] \<and>
   subseq [''https://example.com/media/clip.mp4'', ''gs://bk/x/song.MP3''] example_batch"
proof -
  have all: "map fst (file_mapping example_locals) = example_batch"
    by (simp add: example_locals_def example_batch_def)
  have three: "length example_batch = 3"
    by (simp add: example_batch_def)
  have s: "map fst (successful_downloads example_locals)
     = [''https://example.com/media/clip.mp4'', ''gs://bk/x/song.MP3'']"
    by (simp add: example_locals_def)
  from fetch_results_cover_batch [OF example_run all]
  have "length (results example_locals) = length example_batch"
    and "length (fetched_urls (new_events example_world
           (snd (download_media_body example_env example_batch (Some ''out'') True True
                   example_world)))) = length example_batch"
    and "subseq (map fst (successful_downloads example_locals)) example_batch"
    by blast+
  then show ?thesis
    unfolding three s using s by simp
qed

subsection \<open>Where the files are put\<close>

text \<open>
  Claim C2, as stated, at the batch of the one URL \<^verbatim>\<open>https://example.com/media/clip.mp4\<close>
  with the base directory \<open>out\<close>, organized: the file is at \<open>out/videos/clip.mp4\<close>, and
  there is nothing at \<open>out/video/clip.mp4\<close>.
\<close>

theorem organized_path_is_under_videos:
  "fst (download_media_async example_env [''https://example.com/media/clip.mp4'']
          (Some ''out'') True True example_world)
     = Inr [(''https://example.com/media/clip.mp4'', Path [] [''out'', ''videos'', ''clip.mp4''])] \<and>
   files (snd (download_media_async example_env [''https://example.com/media/clip.mp4'']
          (Some ''out'') True True example_world)) (Path [] [''out'', ''videos'', ''clip.mp4''])
     = Some File \<and>
   files (snd (download_media_async example_env [''https://example.com/media/clip.mp4'']
          (Some ''out'') True True example_world)) (Path [] [''out'', ''video'', ''clip.mp4''])
     = None \<and>
   path_join (path_join (Path_of ''out'') ''video'') ''clip.mp4''
     = Path [] [''out'', ''video'', ''clip.mp4'']"
  by code_simp

lemma below_Nil: "below d [] = d"
  by (simp add: below_def)

text \<open>
  Claim C2, amended. Every reference that a run returns as downloaded is a reference of
  the batch, at some position \<open>k + 1\<close>; its file name, derived for that position, is not
  empty; its local path is the output directory, then in an organized run the folder
  \<open>videos\<close>, \<open>images\<close>, \<open>audios\<close> or \<open>unknown\<close> that the classifier gives for the
  extension of the file name, then the file name; and a file is there when the run ends.
\<close>

theorem successful_download_path:
  assumes run: "download_media_body E uris out cl org w = (Inr l, w')"
    and mem: "(u, p) \<in> set (successful_downloads l)"
  shows "\<exists>k fn. k < length uris \<and> uris ! k = u \<and> derive_filename E (Suc k) u = Inr fn \<and>
           fn \<noteq> [] \<and>
           get_media_type (lower (path_suffix (Path_of fn)))
             \<in> {''videos'', ''images'', ''audios'', ''unknown''} \<and>
           p = below (download_dir_of out)
                 (if org then [get_media_type (lower (path_suffix (Path_of fn))), fn] else [fn]) \<and>
           files w' p = Some File"
proof -
  from download_media_body_Inr [OF run] obtain dir folders fs tasks mapping w1 res w2 where
    dest: "prepare_destination out org (files w) = (Inr (dir, folders), fs)"
    and prep: "prepare_downloads E org folders dir (length uris) 1 uris (w\<lparr>files := fs\<rparr>)
             = (Inr (tasks, mapping), w1)"
    and gath: "gather E tasks w1 = (res, w2)"
    and l: "l = \<lparr>download_tasks = tasks, file_mapping = mapping, results = res,
                 successful_downloads = map fst (filter snd (zip mapping res))\<rparr>"
    and w': "w' = (if cl \<and> map fst (filter snd (zip mapping res)) \<noteq> []
                 then snd (cleanup_loop E (map fst (filter snd (zip mapping res))) 0 w2)
                 else w2)"
    by blast
  let ?succ = "map fst (filter snd (zip mapping res))"
  note D = prepare_destination_result [OF dest]
  from D have dir: "dir = download_dir_of out" by simp
  from mem l have "(u, p) \<in> set ?succ" by simp
  from successful_index [OF this] obtain j where
    j: "j < length mapping" "j < length res" "mapping ! j = (u, p)" "res ! j" by blast
  then have inmap: "(u, p) \<in> set mapping" by (metis nth_mem)
  from prepare_downloads_origin [OF prep inmap] obtain k fn where
    k: "k < length uris" "uris ! k = u"
    and fn: "derive_filename E (Suc k) u = Inr fn"
    and tp: "target_path org folders dir fn = Inr p"
    by auto
  note N = derive_filename_name [OF fn]
  let ?cat = "get_media_type (lower (path_suffix (Path_of fn)))"
  have p: "p = below dir ((if org then [?cat] else []) @ (if fn = [] then [] else [fn]))"
  proof (cases org)
    case True
    with D have "folders = four_folders dir" by simp
    with tp True have "p = path_join (below dir [?cat]) fn"
      by (simp add: target_path_organized)
    with N True show ?thesis by (simp add: path_join_below)
  next
    case False
    with tp have "p = path_join dir fn" by (simp add: target_path_flat)
    with N False show ?thesis by (simp add: path_join_name)
  qed
  note G = gather_effect [OF gath]
  from prepare_downloads_lockstep [OF prep]
  have lock: "map (\<lambda>t. fst (snd t)) tasks = map snd mapping" .
  then have len: "length tasks = length mapping" by (rule map_eq_imp_length_eq)
  from lock j(1) len have "fst (snd (tasks ! j)) = snd (mapping ! j)"
    by (metis nth_map)
  with j(3) have "fst (snd (tasks ! j)) = p" by simp
  with G j len have file2: "files w2 p = Some File" by auto
  have keep: "files w' = files w2"
  proof (cases "cl \<and> ?succ \<noteq> []")
    case True
    obtain c w3 where c: "cleanup_loop E ?succ 0 w2 = (c, w3)"
      by (cases "cleanup_loop E ?succ 0 w2")
    from cleanup_loop_effect [OF c] w' True c show ?thesis by simp
  next
    case False
    with w' show ?thesis by auto
  qed
  have nonempty: "fn \<noteq> []"
  proof
    assume e: "fn = []"
    have "\<exists>b. fs p = Some (Dir b)"
    proof (cases org)
      case True
      with e p have "p = below dir [?cat]" by simp
      with D True get_media_type_range [of "lower (path_suffix (Path_of fn))"]
      show ?thesis by blast
    next
      case False
      with e p have "p = dir" by (simp add: below_Nil)
      with D show ?thesis by blast
    qed
    then obtain b where "fs p = Some (Dir b)" by blast
    moreover from prepare_downloads_effect [OF prep] have "files w1 = fs" by simp
    ultimately have "files w2 p = Some (Dir b)" using G by simp
    with file2 show False by simp
  qed
  from p nonempty dir have "p = below (download_dir_of out) (if org then [?cat, fn] else [fn])"
    by simp
  with k fn nonempty get_media_type_range [of "lower (path_suffix (Path_of fn))"] file2 keep
  show ?thesis by auto
qed

theorem successful_download_path_witness:
  "\<exists>k fn. k < length example_batch \<and> example_batch ! k = ''https://example.com/media/clip.mp4'' \<and>
      derive_filename example_env (Suc k) ''https://example.com/media/clip.mp4'' = Inr fn \<and>
      fn \<noteq> [] \<and>
      Path [] [''out'', ''videos'', ''clip.mp4''] =
        below (download_dir_of (Some ''out''))
          [get_media_type (lower (path_suffix (Path_of fn))), fn] \<and>
      files (snd (download_media_body example_env example_batch (Some ''out'') True True
                    example_world)) (Path [] [''out'', ''videos'', ''clip.mp4'']) = Some File"
proof -
  have mem: "(''https://example.com/media/clip.mp4'', Path [] [''out'', ''videos'', ''clip.mp4''])
              \<in> set (successful_downloads example_locals)"
    by (simp add: example_locals_def)
  from successful_download_path [OF example_run mem] show ?thesis by auto
qed

subsection \<open>A reference that cannot be resolved\<close>

text \<open>
  Claim C1. Let the destination be prepared and let \<^verbatim>\<open>urlparse\<close> accept the plain URLs of
  the batch. Let \<open>u\<close> be a storage URI of the batch whose exchange fails whenever it is
  attempted: the client library is missing, or the URI does not split into bucket and
  blob path, or the storage client raises or gives an empty URL. Then the run returns
  all the same; \<open>u\<close> is not in the fetch set, there is exactly one fetch for each entry of
  the fetch set, \<open>u\<close> is not among the successful downloads (which is how the code
  records a failure), no delete is issued for the object of \<open>u\<close>, and every plain URL and
  every storage URI whose exchange cannot fail is in the fetch set.
\<close>

theorem failed_resolution_is_skipped:
  assumes dest: "prepare_destination out org (files w) = (Inr (dir, folders), fs)"
    and parse: "\<forall>v \<in> set uris. \<not> startswith v ''gs://'' \<longrightarrow> (\<exists>p. urlparse_path E v = Inr p)"
    and u: "u \<in> set uris" "startswith u ''gs://''"
    and fails: "\<not> GCS_AVAILABLE E \<or> length (gcs_path_parts u) \<noteq> 2 \<or>
                (\<forall>h. generate_signed_url E h (fst (gcs_object u)) (snd (gcs_object u)) 1
                       \<in> {None, Some []})"
  shows "\<exists>l w'. download_media_body E uris out cl org w = (Inr l, w') \<and>
           u \<notin> fst ` set (file_mapping l) \<and>
           length (download_tasks l) = length (file_mapping l) \<and>
           fetched_urls (new_events w w') = map fst (download_tasks l) \<and>
           u \<notin> fst ` set (successful_downloads l) \<and>
           (length (gcs_path_parts u) = 2 \<longrightarrow>
              gcs_object u \<notin> set (deleted_objects (new_events w w'))) \<and>
           (\<forall>v \<in> set uris. \<not> startswith v ''gs://'' \<longrightarrow> v \<in> fst ` set (file_mapping l)) \<and>
           (\<forall>v \<in> set uris. GCS_AVAILABLE E \<and> length (gcs_path_parts v) = 2 \<and>
              (\<forall>h. \<exists>s. generate_signed_url E h (fst (gcs_object v)) (snd (gcs_object v)) 1 = Some s
                        \<and> s \<noteq> [])
              \<longrightarrow> v \<in> fst ` set (file_mapping l))"
proof -
  note D = prepare_destination_result [OF dest]
  have unk: "org \<longrightarrow> map_of folders ''unknown'' \<noteq> None"
    using D by (auto simp: four_folders_def)
  from prepare_downloads_returns [OF parse unk] obtain tasks mapping w1 where
    prep: "prepare_downloads E org folders dir (length uris) 1 uris (w\<lparr>files := fs\<rparr>)
             = (Inr (tasks, mapping), w1)" by blast
  obtain res w2 where gath: "gather E tasks w1 = (res, w2)"
    by (cases "gather E tasks w1")
  let ?succ = "map fst (filter snd (zip mapping res))"
  define l where "l = \<lparr>download_tasks = tasks, file_mapping = mapping, results = res,
                 successful_downloads = ?succ\<rparr>"
  define w' where "w' = (if cl \<and> ?succ \<noteq> [] then snd (cleanup_loop E ?succ 0 w2) else w2)"
  have run: "download_media_body E uris out cl org w = (Inr l, w')"
    using dest prep gath by (simp add: download_media_body_def Let_def l_def w'_def)
  have unsigned: "\<not> (startswith v ''gs://'' \<and> gcs_object v = gcs_object u \<and>
                      (length (gcs_path_parts u) = 2 \<or> v = u))"
    if "(v, q) \<in> set mapping" for v q
  proof
    assume a: "startswith v ''gs://'' \<and> gcs_object v = gcs_object u \<and>
                      (length (gcs_path_parts u) = 2 \<or> v = u)"
    from prepare_downloads_signed [OF prep that] a obtain h s where
      g: "GCS_AVAILABLE E" and lv: "length (gcs_path_parts v) = 2"
      and s: "generate_signed_url E h (fst (gcs_object u)) (snd (gcs_object u)) 1 = Some s"
        "s \<noteq> []"
      by auto
    from a lv have "length (gcs_path_parts u) = 2" by auto
    with fails g
    have "generate_signed_url E h (fst (gcs_object u)) (snd (gcs_object u)) 1 \<in> {None, Some []}"
      by blast
    with s show False by simp
  qed
  have 1: "u \<notin> fst ` set mapping"
    using unsigned u(2) by force
  have 2: "length tasks = length mapping"
    using prepare_downloads_lockstep [OF prep] by (rule map_eq_imp_length_eq)
  from download_media_body_trace [OF run] obtain evs where
    q: "deleted_objects evs = []" "fetched_urls evs = []"
    and tr: "new_events w w' = evs @ map (\<lambda>t. Get (fst t)) (download_tasks l) @
             (if cl then
                map (\<lambda>u. Delete (fst (gcs_object u)) (snd (gcs_object u)))
                  (filter (\<lambda>u. startswith u ''gs://'') (map fst (successful_downloads l)))
              else [])"
    by blast
  have 3: "fetched_urls (new_events w w') = map fst tasks"
    using q tr by (simp add: fetched_urls_append fetched_urls_map_Get fetched_urls_map_Delete l_def)
  have sub: "set ?succ \<subseteq> set mapping"
    by (auto dest: set_zip_leftD)
  have 4: "u \<notin> fst ` set ?succ"
    using 1 sub by blast
  have 5: "gcs_object u \<notin> set (deleted_objects (new_events w w'))"
    if two: "length (gcs_path_parts u) = 2"
  proof
    assume "gcs_object u \<in> set (deleted_objects (new_events w w'))"
    with q tr have "gcs_object u \<in> gcs_object ` {v \<in> fst ` set ?succ. startswith v ''gs://''}"
      by (auto simp: deleted_objects_append deleted_objects_map_Get deleted_objects_map_Delete
            l_def split: if_splits)
    then obtain v q where "(v, q) \<in> set ?succ" "startswith v ''gs://''"
      "gcs_object v = gcs_object u" by force
    with sub unsigned [of v q] two show False by blast
  qed
  have 6: "v \<in> fst ` set mapping" if "v \<in> set uris" "\<not> startswith v ''gs://''" for v
  proof -
    from that have "v \<in> set (filter (\<lambda>v. \<not> startswith v ''gs://'') uris)" by simp
    with prepare_downloads_plain [OF prep]
    have "v \<in> set (filter (\<lambda>v. \<not> startswith v ''gs://'') (map fst mapping))" by simp
    then show ?thesis by auto
  qed
  have 7: "v \<in> fst ` set mapping"
    if "v \<in> set uris" "GCS_AVAILABLE E" "length (gcs_path_parts v) = 2"
      "\<forall>h. \<exists>s. generate_signed_url E h (fst (gcs_object v)) (snd (gcs_object v)) 1 = Some s
                        \<and> s \<noteq> []" for v
    using prepare_downloads_accepted [OF prep that] .
  from run 1 2 3 4 5 6 7 show ?thesis
    by (intro exI [of _ l] exI [of _ w']) (simp add: l_def)
qed

theorem failed_resolution_is_skipped_witness:
  "\<exists>l w'. download_media_body example_env example_mixed (Some ''out'') True True example_world
             = (Inr l, w') \<and>
     ''gs://locked/x/v.mp4'' \<notin> fst ` set (file_mapping l) \<and>
     ''gs://locked/x/v.mp4'' \<notin> fst ` set (successful_downloads l) \<and>
     (''locked'', ''x/v.mp4'') \<notin> set (deleted_objects (new_events example_world w')) \<and>
     ''https://example.com/media/clip.mp4'' \<in> fst ` set (file_mapping l) \<and>
     ''gs://bk/x/song.MP3'' \<in> fst ` set (file_mapping l)"
proof -
  let ?u = "''gs://locked/x/v.mp4''"
  have d: "fst (prepare_destination (Some ''out'') True (files example_world))
           = Inr (Path [] [''out''], four_folders (Path [] [''out'']))"
    by code_simp
  have dest: "prepare_destination (Some ''out'') True (files example_world)
           = (Inr (Path [] [''out''], four_folders (Path [] [''out''])),
              snd (prepare_destination (Some ''out'') True (files example_world)))"
    using d by (simp add: prod_eq_iff)
  have "urlparse_path example_env ''https://example.com/media/clip.mp4'' = Inr ''/media/clip.mp4''"
    by code_simp
  then have parse: "\<forall>v \<in> set example_mixed. \<not> startswith v ''gs://''
                      \<longrightarrow> (\<exists>p. urlparse_path example_env v = Inr p)"
    by (simp add: example_mixed_def startswith_def)
  have u: "?u \<in> set example_mixed" "startswith ?u ''gs://''"
    by (simp_all add: example_mixed_def startswith_def)
  have obj: "gcs_object ?u = (''locked'', ''x/v.mp4'')"
    "gcs_object ''gs://bk/x/song.MP3'' = (''bk'', ''x/song.MP3'')"
    "length (gcs_path_parts ?u) = 2" "length (gcs_path_parts ''gs://bk/x/song.MP3'') = 2"
    by (simp_all add: gcs_object_def gcs_path_parts_def split1_def)
  have fails: "\<not> GCS_AVAILABLE example_env \<or> length (gcs_path_parts ?u) \<noteq> 2 \<or>
     (\<forall>h. generate_signed_url example_env h (fst (gcs_object ?u)) (snd (gcs_object ?u)) 1
            \<in> {None, Some []})"
    by (simp add: obj example_env_def)
  have ok: "GCS_AVAILABLE example_env \<and> length (gcs_path_parts ''gs://bk/x/song.MP3'') = 2 \<and>
     (\<forall>h. \<exists>s. generate_signed_url example_env h (fst (gcs_object ''gs://bk/x/song.MP3''))
                 (snd (gcs_object ''gs://bk/x/song.MP3'')) 1 = Some s \<and> s \<noteq> [])"
    by (simp add: obj example_env_def)
  have mem: "''https://example.com/media/clip.mp4'' \<in> set example_mixed"
    "''gs://bk/x/song.MP3'' \<in> set example_mixed"
    "\<not> startswith ''https://example.com/media/clip.mp4'' ''gs://''"
    by (simp_all add: example_mixed_def startswith_def)
  from failed_resolution_is_skipped [OF dest parse u fails, of True]
  obtain l w' where
    run: "download_media_body example_env example_mixed (Some ''out'') True True example_world
             = (Inr l, w')"
    and 1: "?u \<notin> fst ` set (file_mapping l)" "?u \<notin> fst ` set (successful_downloads l)"
    and 2: "length (gcs_path_parts ?u) = 2 \<longrightarrow>
              gcs_object ?u \<notin> set (deleted_objects (new_events example_world w'))"
    and 3: "\<forall>v \<in> set example_mixed. \<not> startswith v ''gs://''
             \<longrightarrow> v \<in> fst ` set (file_mapping l)"
    and 4: "\<forall>v \<in> set example_mixed. GCS_AVAILABLE example_env \<and> length (gcs_path_parts v) = 2 \<and>
              (\<forall>h. \<exists>s. generate_signed_url example_env h (fst (gcs_object v)) (snd (gcs_object v)) 1 = Some s
                        \<and> s \<noteq> [])
              \<longrightarrow> v \<in> fst ` set (file_mapping l)"
    by blast
  from 2 obj have 5: "(''locked'', ''x/v.mp4'') \<notin> set (deleted_objects (new_events example_world w'))"
    by simp
  from 3 mem have 6: "''https://example.com/media/clip.mp4'' \<in> fst ` set (file_mapping l)" by blast
  from 4 mem(2) ok have 7: "''gs://bk/x/song.MP3'' \<in> fst ` set (file_mapping l)" by blast
  from run 1 5 6 7 show ?thesis by blast
qed

end
